theory Spec2Isabelle
  imports Main
begin

section \<open>The board (class Board of script.cpp)\<close>

text \<open>
  A cell holds a C++ \<open>char\<close>. \<open>Board::EMPTY\<close> is the blank character; \<open>checkWinner\<close>
  answers with a player's character, with \<open>'D'\<close> for a draw or with the NUL character
  when nobody has won yet.
\<close>

definition EMPTY :: char where
  "EMPTY = CHR '' ''"

definition DRAW :: char where
  "DRAW = CHR ''D''"

definition NO_WINNER :: char where
  "NO_WINNER = CHR 0x00"

text \<open>
  The three private members of the class. The member \<open>size\<close> is called \<open>boardSize\<close> here
  (the name of the constructor's parameter), because \<open>size\<close> is a constant of HOL.
\<close>

record board =
  boardSize :: nat
  cells :: "char list"
  winLines :: "nat list list"

datatype error = InvalidSize

text \<open>
  \<open>generateWinLines\<close>: the rows, then the columns, then the two diagonals. Each
  \<open>for\<close> loop that pushes one element per round is a \<open>map\<close> over \<open>[0..<n]\<close>.
\<close>

definition generateWinLines :: "nat \<Rightarrow> nat list list" where
  "generateWinLines n =
     map (\<lambda>r. map (\<lambda>c. r * n + c) [0..<n]) [0..<n] @
     map (\<lambda>c. map (\<lambda>r. r * n + c) [0..<n]) [0..<n] @
     [map (\<lambda>i. i * n + i) [0..<n], map (\<lambda>i. i * n + (n - 1 - i)) [0..<n]]"

text \<open>The constructor: it throws \<open>invalid_argument\<close> outside 3..6.\<close>

definition Board :: "int \<Rightarrow> error + board" where
  "Board sz =
     (if sz < 3 \<or> sz > 6 then Inl InvalidSize
      else Inr \<lparr>boardSize = nat sz,
                cells = replicate (nat sz * nat sz) EMPTY,
                winLines = generateWinLines (nat sz)\<rparr>)"

definition getSize :: "board \<Rightarrow> int" where
  "getSize b = int (boardSize b)"

definition getWinLines :: "board \<Rightarrow> nat list list" where
  "getWinLines b = winLines b"

text \<open>
  \<open>get\<close>, \<open>set\<close> and \<open>isEmpty\<close> index the vector without a range check; an index
  outside the vector is undefined behaviour in the source and is outside this model
  (every caller in the program passes an index below \<open>size * size\<close>).
  \<open>set\<close> is called \<open>set_cell\<close>: \<open>set\<close> is a constant of HOL.
\<close>

definition get :: "board \<Rightarrow> nat \<Rightarrow> char" where
  "get b index = cells b ! index"

definition set_cell :: "board \<Rightarrow> nat \<Rightarrow> char \<Rightarrow> board" where
  "set_cell b index symbol = b\<lparr>cells := (cells b)[index := symbol]\<rparr>"

definition isEmpty :: "board \<Rightarrow> nat \<Rightarrow> bool" where
  "isEmpty b index = (cells b ! index = EMPTY)"

definition isFull :: "board \<Rightarrow> bool" where
  "isFull b = (EMPTY \<notin> set (cells b))"

definition getEmptyCells :: "board \<Rightarrow> nat list" where
  "getEmptyCells b = filter (\<lambda>i. cells b ! i = EMPTY) [0..<length (cells b)]"

text \<open>
  \<open>checkWinner\<close>. \<open>allSame\<close> is the inner loop over one line, \<open>checkLines\<close> the outer
  loop over the lines: it leaves with the first line whose cells all hold the
  non-blank character of the line's first cell. A line is never empty on a board made
  by the constructor, so \<open>line[0]\<close> is always there.
\<close>

definition allSame :: "char list \<Rightarrow> char \<Rightarrow> nat list \<Rightarrow> bool" where
  "allSame cs first line = list_all (\<lambda>idx. cs ! idx = first) line"

fun checkLines :: "char list \<Rightarrow> nat list list \<Rightarrow> char option" where
  "checkLines cs [] = None"
| "checkLines cs (line # rest) =
     (let first = cs ! (line ! 0)
      in if first = EMPTY then checkLines cs rest
         else if allSame cs first line then Some first
         else checkLines cs rest)"

definition checkWinner :: "board \<Rightarrow> char" where
  "checkWinner b =
     (case checkLines (cells b) (winLines b) of
        Some first \<Rightarrow> first
      | None \<Rightarrow> if isFull b then DRAW else NO_WINNER)"

definition copy :: "board \<Rightarrow> board" where
  "copy b = \<lparr>boardSize = boardSize b, cells = cells b,
             winLines = generateWinLines (boardSize b)\<rparr>"

section \<open>The search engine (class AIEngine)\<close>

text \<open>
  Scores are C++ \<open>int\<close>s, modelled as mathematical integers together with the two
  limits of a 32-bit \<open>int\<close>; lemma \<open>evaluateBoard_bounds\<close> below shows that no sum
  of the evaluator leaves that range on a board made by the constructor.
  The depth budget is never negative in the program (\<open>getMaxDepth\<close> answers 100, 6, 5
  or 4, and \<open>minimax\<close> subtracts one only from a non-zero depth), so it is a \<open>nat\<close>.
\<close>

definition WIN_SCORE :: int where
  "WIN_SCORE = 1000000"

definition LOSS_SCORE :: int where
  "LOSS_SCORE = - 1000000"

definition INT_MIN :: int where
  "INT_MIN = - 2147483648"

definition INT_MAX :: int where
  "INT_MAX = 2147483647"

record engine =
  aiSymbol :: char
  humanSymbol :: char
  maxDepth :: nat

text \<open>The inner loop of \<open>evaluateBoard\<close>: the two counters of one line.\<close>

definition countStep :: "engine \<Rightarrow> board \<Rightarrow> nat \<Rightarrow> int \<times> int \<Rightarrow> int \<times> int" where
  "countStep e b idx cnt =
     (if get b idx = aiSymbol e then (fst cnt + 1, snd cnt)
      else if get b idx = humanSymbol e then (fst cnt, snd cnt + 1)
      else cnt)"

definition lineCounts :: "engine \<Rightarrow> board \<Rightarrow> nat list \<Rightarrow> int \<times> int" where
  "lineCounts e b line = fold (countStep e b) line (0, 0)"

text \<open>The body of the outer loop: what one line does to the running score.\<close>

definition lineStep :: "engine \<Rightarrow> board \<Rightarrow> nat list \<Rightarrow> int \<Rightarrow> int" where
  "lineStep e b line score =
     (let myCount = fst (lineCounts e b line);
          oppCount = snd (lineCounts e b line);
          n = getSize b
      in if myCount > 0 \<and> oppCount > 0 then score
         else
           (let score1 =
                  (if myCount > 0 then
                     (if myCount = n then score + WIN_SCORE
                      else if myCount = n - 1 then score + 50000
                      else if myCount = n - 2 then score + 1000
                      else if myCount \<ge> 2 then score + 10
                      else score)
                   else score)
            in if oppCount > 0 then
                 (if oppCount = n then score1 - WIN_SCORE
                  else if oppCount = n - 1 then score1 - 55000
                  else if oppCount = n - 2 then score1 - 2000
                  else if oppCount \<ge> 2 then score1 - 20
                  else score1)
               else score1))"

definition evaluateBoard :: "engine \<Rightarrow> board \<Rightarrow> int" where
  "evaluateBoard e b = fold (lineStep e b) (getWinLines b) 0"

text \<open>
  \<open>minimax\<close> works on the caller's board: it writes a symbol, searches, and writes
  \<open>EMPTY\<close> back. The model passes the board through: every function returns the score
  together with the board it leaves behind. \<open>maxLoop\<close> and \<open>minLoop\<close> are the two
  \<open>for\<close> loops over \<open>emptyCells\<close> (computed once, before the loop); their arguments
  are the loop's variables. The depth handed to a loop is \<open>depth - 1\<close>.
\<close>

function minimax :: "engine \<Rightarrow> nat \<Rightarrow> board \<Rightarrow> int \<Rightarrow> int \<Rightarrow> bool \<Rightarrow> int \<times> board"
  and maxLoop :: "engine \<Rightarrow> nat \<Rightarrow> nat list \<Rightarrow> board \<Rightarrow> int \<Rightarrow> int \<Rightarrow> int \<Rightarrow> int \<times> board"
  and minLoop :: "engine \<Rightarrow> nat \<Rightarrow> nat list \<Rightarrow> board \<Rightarrow> int \<Rightarrow> int \<Rightarrow> int \<Rightarrow> int \<times> board"
where
  "minimax e depth b alpha beta isMaximizing =
     (let winner = checkWinner b
      in if winner = aiSymbol e then (WIN_SCORE, b)
         else if winner = humanSymbol e then (LOSS_SCORE, b)
         else if winner = DRAW then (0, b)
         else (case depth of
                 0 \<Rightarrow> (evaluateBoard e b, b)
               | Suc d \<Rightarrow>
                   if isMaximizing then maxLoop e d (getEmptyCells b) b alpha beta INT_MIN
                   else minLoop e d (getEmptyCells b) b alpha beta INT_MAX))"
| "maxLoop e d [] b alpha beta maxEval = (maxEval, b)"
| "maxLoop e d (i # rest) b alpha beta maxEval =
     (case minimax e d (set_cell b i (aiSymbol e)) alpha beta False of
        (evalScore, b') \<Rightarrow>
          if beta \<le> max alpha evalScore
          then (max maxEval evalScore, set_cell b' i EMPTY)
          else maxLoop e d rest (set_cell b' i EMPTY) (max alpha evalScore) beta
                 (max maxEval evalScore))"
| "minLoop e d [] b alpha beta minEval = (minEval, b)"
| "minLoop e d (i # rest) b alpha beta minEval =
     (case minimax e d (set_cell b i (humanSymbol e)) alpha beta True of
        (evalScore, b') \<Rightarrow>
          if min beta evalScore \<le> alpha
          then (min minEval evalScore, set_cell b' i EMPTY)
          else minLoop e d rest (set_cell b' i EMPTY) alpha (min beta evalScore)
                 (min minEval evalScore))"
  by pat_completeness auto
termination
  by (relation "measures
        [\<lambda>x. case x of
            Inl (e, depth, b, alpha, beta, m) \<Rightarrow> 2 * depth
          | Inr (Inl (e, d, cs, b, alpha, beta, m)) \<Rightarrow> 2 * d + 1
          | Inr (Inr (e, d, cs, b, alpha, beta, m)) \<Rightarrow> 2 * d + 1,
         \<lambda>x. case x of
            Inl (e, depth, b, alpha, beta, m) \<Rightarrow> 0
          | Inr (Inl (e, d, cs, b, alpha, beta, m)) \<Rightarrow> length cs
          | Inr (Inr (e, d, cs, b, alpha, beta, m)) \<Rightarrow> length cs]") auto

text \<open>\<open>getBestMove\<close>: the loop's variables are the board, \<open>bestScore\<close> and \<open>bestMove\<close>.\<close>

fun bestLoop :: "engine \<Rightarrow> nat list \<Rightarrow> board \<Rightarrow> int \<Rightarrow> int \<Rightarrow> int \<times> board" where
  "bestLoop e [] b bestScore bestMove = (bestMove, b)"
| "bestLoop e (i # rest) b bestScore bestMove =
     (case minimax e (maxDepth e) (set_cell b i (aiSymbol e)) INT_MIN INT_MAX False of
        (score, b') \<Rightarrow>
          if score > bestScore then bestLoop e rest (set_cell b' i EMPTY) score (int i)
          else bestLoop e rest (set_cell b' i EMPTY) bestScore bestMove)"

definition getBestMove :: "engine \<Rightarrow> board \<Rightarrow> int \<times> board" where
  "getBestMove e b = bestLoop e (getEmptyCells b) b INT_MIN (- 1)"

section \<open>The players and the game (classes AIPlayer, HumanPlayer, Game)\<close>

text \<open>\<open>AIPlayer::getMaxDepth\<close> and the engine that the constructor of \<open>AIPlayer\<close> builds.\<close>

definition getMaxDepth :: "int \<Rightarrow> nat" where
  "getMaxDepth sz =
     (if sz = 3 then 100
      else if sz = 4 then 6
      else if sz = 5 then 5
      else if sz = 6 then 4
      else 4)"

definition AIPlayer :: "char \<Rightarrow> char \<Rightarrow> int \<Rightarrow> engine" where
  "AIPlayer aiSym humanSym sz =
     \<lparr>aiSymbol = aiSym, humanSymbol = humanSym, maxDepth = getMaxDepth sz\<rparr>"

text \<open>
  The constructor of \<open>Game\<close>: the board, the human with \<open>'O'\<close> and the engine with
  \<open>'X'\<close> against \<open>'O'\<close>. The human player holds nothing but its symbol, which is the
  engine's \<open>humanSymbol\<close>.
\<close>

definition Game :: "int \<Rightarrow> error + board \<times> engine" where
  "Game sz =
     (case Board sz of
        Inl err \<Rightarrow> Inl err
      | Inr b \<Rightarrow> Inr (b, AIPlayer CHR ''X'' CHR ''O'' sz))"

text \<open>
  \<open>HumanPlayer::getMove\<close> reads numbers until one is the index of an empty cell. The
  list \<open>input\<close> holds the values that \<open>cin >> move\<close> extracts, in order; the function
  returns the move with the values that are left. An extraction that fails yields no
  value: the source clears the stream, drops the rest of that line and reads again, so
  neither the failed text nor what follows it on the line appears in the list. When the
  values end before a legal move is read there is no move.
\<close>

fun humanGetMove :: "board \<Rightarrow> int list \<Rightarrow> (nat \<times> int list) option" where
  "humanGetMove b [] = None"
| "humanGetMove b (move # input) =
     (if move < 0 \<or> move > getSize b * getSize b - 1 then humanGetMove b input
      else if \<not> isEmpty b (nat move) then humanGetMove b input
      else Some (nat move, input))"

text \<open>
  \<open>Game::play\<close>, from the point where the first player is chosen (\<open>aiTurn\<close> tells whose
  turn it is). The loop ends with the final board (\<open>Over\<close>); the model also ends when the
  input is used up, when \<open>getBestMove\<close> returns a negative index (the source would write
  outside the vector), or when \<open>fuel\<close> rounds of the loop have been run.
\<close>

datatype outcome = Over board | InputExhausted board | NoMove board | OutOfFuel board

fun play :: "engine \<Rightarrow> nat \<Rightarrow> board \<Rightarrow> bool \<Rightarrow> int list \<Rightarrow> outcome" where
  "play e 0 b aiTurn input = OutOfFuel b"
| "play e (Suc fuel) b aiTurn input =
     (if isFull b then Over b
      else if aiTurn then
        (case getBestMove e b of
           (move, b') \<Rightarrow>
             if move < 0 then NoMove b'
             else if checkWinner (set_cell b' (nat move) (aiSymbol e)) \<noteq> NO_WINNER
             then Over (set_cell b' (nat move) (aiSymbol e))
             else play e fuel (set_cell b' (nat move) (aiSymbol e)) False input)
      else
        (case humanGetMove b input of
           None \<Rightarrow> InputExhausted b
         | Some (move, rest) \<Rightarrow>
             if checkWinner (set_cell b move (humanSymbol e)) \<noteq> NO_WINNER
             then Over (set_cell b move (humanSymbol e))
             else play e fuel (set_cell b move (humanSymbol e)) True rest))"

section \<open>Notions used in the statements\<close>

text \<open>
  The boards the program can build: made by the constructor for a size from 3 to 6,
  after any number of \<open>set\<close> calls at indices inside the vector.
\<close>

definition valid_board :: "board \<Rightarrow> bool" where
  "valid_board b =
     (3 \<le> boardSize b \<and> boardSize b \<le> 6 \<and>
      length (cells b) = boardSize b * boardSize b \<and>
      winLines b = generateWinLines (boardSize b))"

text \<open>The board of size \<open>n\<close> whose cells are the given characters.\<close>

definition boardOf :: "nat \<Rightarrow> string \<Rightarrow> board" where
  "boardOf n cs = \<lparr>boardSize = n, cells = cs, winLines = generateWinLines n\<rparr>"

text \<open>The engine of the program: \<open>Game\<close> builds \<open>AIPlayer('X', 'O', 3)\<close> for a 3x3 board.\<close>

definition engineXO :: engine where
  "engineXO = \<lparr>aiSymbol = CHR ''X'', humanSymbol = CHR ''O'', maxDepth = 100\<rparr>"

subsection \<open>Win lines\<close>

text \<open>
  The row, the column and the two diagonals of the grid, described by the coordinates
  of a cell (index \<open>i\<close> is in row \<open>i div n\<close> and column \<open>i mod n\<close>), and the number of
  win lines that contain a given index.
\<close>

definition rowLine :: "nat \<Rightarrow> nat \<Rightarrow> nat list" where
  "rowLine n r = filter (\<lambda>i. i div n = r) [0..<n * n]"

definition colLine :: "nat \<Rightarrow> nat \<Rightarrow> nat list" where
  "colLine n c = filter (\<lambda>i. i mod n = c) [0..<n * n]"

definition diagLine :: "nat \<Rightarrow> nat list" where
  "diagLine n = filter (\<lambda>i. i div n = i mod n) [0..<n * n]"

definition antiLine :: "nat \<Rightarrow> nat list" where
  "antiLine n = filter (\<lambda>i. i div n + i mod n = n - 1) [0..<n * n]"

definition linesThrough :: "nat list list \<Rightarrow> nat \<Rightarrow> nat" where
  "linesThrough ls i = length (filter (\<lambda>line. i \<in> set line) ls)"

definition onDiagonals :: "nat \<Rightarrow> nat \<Rightarrow> nat" where
  "onDiagonals n i =
     (if i div n = i mod n then 1 else 0) + (if i div n + i mod n = n - 1 then 1 else 0)"

text \<open>The properties of the win lines of one size, as a check that can be run.\<close>

definition linesOk :: "nat \<Rightarrow> bool" where
  "linesOk n =
     (let ls = generateWinLines n
      in length ls = 2 * n + 2 \<and>
         ls = map (rowLine n) [0..<n] @ map (colLine n) [0..<n] @ [diagLine n, antiLine n] \<and>
         list_all (\<lambda>l. length l = n) ls \<and>
         list_all (\<lambda>i. linesThrough ls i = 2 + onDiagonals n i) [0..<n * n])"

definition linesInRange :: "nat \<Rightarrow> bool" where
  "linesInRange n =
     list_all (\<lambda>line. line \<noteq> [] \<and> list_all (\<lambda>i. i < n * n) line) (generateWinLines n)"

subsection \<open>Winner detection\<close>

text \<open>Every cell of the line holds the non-blank symbol \<open>s\<close>.\<close>

definition lineUniform :: "board \<Rightarrow> char \<Rightarrow> nat list \<Rightarrow> bool" where
  "lineUniform b s line = (s \<noteq> EMPTY \<and> list_all (\<lambda>idx. cells b ! idx = s) line)"

text \<open>The test \<open>checkWinner\<close> makes on one line.\<close>

definition won :: "char list \<Rightarrow> nat list \<Rightarrow> bool" where
  "won cs line = (cs ! (line ! 0) \<noteq> EMPTY \<and> allSame cs (cs ! (line ! 0)) line)"

subsection \<open>The evaluator's table, as the specification words it\<close>

definition countSymbol :: "board \<Rightarrow> char \<Rightarrow> nat list \<Rightarrow> int" where
  "countSymbol b s line = int (length (filter (\<lambda>idx. get b idx = s) line))"

definition tierAttack :: "int \<Rightarrow> int \<Rightarrow> int" where
  "tierAttack n k =
     (if k = n then 1000000 else if k = n - 1 then 50000
      else if k = n - 2 then 1000 else if k \<ge> 2 then 10 else 0)"

definition tierDefence :: "int \<Rightarrow> int \<Rightarrow> int" where
  "tierDefence n k =
     (if k = n then 1000000 else if k = n - 1 then 55000
      else if k = n - 2 then 2000 else if k \<ge> 2 then 20 else 0)"

definition lineContribution :: "int \<Rightarrow> int \<Rightarrow> int \<Rightarrow> int" where
  "lineContribution n myCount oppCount =
     (if myCount > 0 \<and> oppCount > 0 then 0
      else if myCount > 0 then tierAttack n myCount
      else if oppCount > 0 then - tierDefence n oppCount
      else 0)"

text \<open>
  What a line held by one player alone is worth more to the defence than to the attack:
  5000, 1000 or 10 in the three partial tiers, nothing for a full line.
\<close>

definition defenceSurplus :: "int \<Rightarrow> int \<Rightarrow> int \<Rightarrow> int" where
  "defenceSurplus n myCount oppCount =
     (if myCount > 0 \<and> oppCount > 0 then 0
      else if myCount > 0 then tierDefence n myCount - tierAttack n myCount
      else if oppCount > 0 then tierDefence n oppCount - tierAttack n oppCount
      else 0)"

definition swapSymbols :: "engine \<Rightarrow> engine" where
  "swapSymbols e = e\<lparr>aiSymbol := humanSymbol e, humanSymbol := aiSymbol e\<rparr>"

subsection \<open>The search without the cutoff\<close>

text \<open>
  The recursion of \<open>minimax\<close> with the test \<open>beta <= alpha\<close> taken out: the window is
  then never read, and the board is the same after every retraction, so the functions
  take neither. The empty cells are visited in ascending order, as in the source.
\<close>

function plainMinimax :: "engine \<Rightarrow> nat \<Rightarrow> board \<Rightarrow> bool \<Rightarrow> int"
  and plainMax :: "engine \<Rightarrow> nat \<Rightarrow> nat list \<Rightarrow> board \<Rightarrow> int \<Rightarrow> int"
  and plainMin :: "engine \<Rightarrow> nat \<Rightarrow> nat list \<Rightarrow> board \<Rightarrow> int \<Rightarrow> int"
where
  "plainMinimax e depth b isMaximizing =
     (let winner = checkWinner b
      in if winner = aiSymbol e then WIN_SCORE
         else if winner = humanSymbol e then LOSS_SCORE
         else if winner = DRAW then 0
         else (case depth of
                 0 \<Rightarrow> evaluateBoard e b
               | Suc d \<Rightarrow>
                   if isMaximizing then plainMax e d (getEmptyCells b) b INT_MIN
                   else plainMin e d (getEmptyCells b) b INT_MAX))"
| "plainMax e d [] b maxEval = maxEval"
| "plainMax e d (i # rest) b maxEval =
     plainMax e d rest b (max maxEval (plainMinimax e d (set_cell b i (aiSymbol e)) False))"
| "plainMin e d [] b minEval = minEval"
| "plainMin e d (i # rest) b minEval =
     plainMin e d rest b (min minEval (plainMinimax e d (set_cell b i (humanSymbol e)) True))"
  by pat_completeness auto
termination
  by (relation "measures
        [\<lambda>x. case x of
            Inl (e, depth, b, m) \<Rightarrow> 2 * depth
          | Inr (Inl (e, d, cs, b, m)) \<Rightarrow> 2 * d + 1
          | Inr (Inr (e, d, cs, b, m)) \<Rightarrow> 2 * d + 1,
         \<lambda>x. case x of
            Inl (e, depth, b, m) \<Rightarrow> 0
          | Inr (Inl (e, d, cs, b, m)) \<Rightarrow> length cs
          | Inr (Inr (e, d, cs, b, m)) \<Rightarrow> length cs]") auto

fun plainBestLoop :: "engine \<Rightarrow> nat list \<Rightarrow> board \<Rightarrow> int \<Rightarrow> int \<Rightarrow> int" where
  "plainBestLoop e [] b bestScore bestMove = bestMove"
| "plainBestLoop e (i # rest) b bestScore bestMove =
     (if plainMinimax e (maxDepth e) (set_cell b i (aiSymbol e)) False > bestScore
      then plainBestLoop e rest b (plainMinimax e (maxDepth e) (set_cell b i (aiSymbol e)) False) (int i)
      else plainBestLoop e rest b bestScore bestMove)"

definition plainBestMove :: "engine \<Rightarrow> board \<Rightarrow> int" where
  "plainBestMove e b = plainBestLoop e (getEmptyCells b) b INT_MIN (- 1)"


text \<open>
  The result \<open>r\<close> of a search with the window \<open>(a, b)\<close> stands for the value \<open>v\<close>:
  exact inside the window, a bound outside of it.
\<close>

definition fishburn :: "int \<Rightarrow> int \<Rightarrow> int \<Rightarrow> int \<Rightarrow> bool" where
  "fishburn a b v r = ((r \<le> a \<longrightarrow> v \<le> r) \<and> (a < r \<and> r < b \<longrightarrow> r = v) \<and> (b \<le> r \<longrightarrow> r \<le> v))"


subsection \<open>Boards in play\<close>

text \<open>
  The data model: a cell is blank or holds one of the two symbols of the engine.
  \<open>candidateScore\<close> is the score \<open>getBestMove\<close> computes for the empty cell \<open>i\<close>.
\<close>

definition cells_in_play :: "engine \<Rightarrow> board \<Rightarrow> bool" where
  "cells_in_play e b = (set (cells b) \<subseteq> {EMPTY, aiSymbol e, humanSymbol e})"

definition candidateScore :: "engine \<Rightarrow> board \<Rightarrow> nat \<Rightarrow> int" where
  "candidateScore e b i =
     fst (minimax e (maxDepth e) (set_cell b i (aiSymbol e)) INT_MIN INT_MAX False)"

subsection \<open>Playing a whole game\<close>

text \<open>
  The symbols of an engine are two different characters, neither blank nor one of the
  two marker characters of \<open>checkWinner\<close>.
\<close>

definition engine_ok :: "engine \<Rightarrow> bool" where
  "engine_ok e =
     (aiSymbol e \<noteq> humanSymbol e \<and>
      aiSymbol e \<notin> {EMPTY, DRAW, NO_WINNER} \<and> humanSymbol e \<notin> {EMPTY, DRAW, NO_WINNER})"


text \<open>
  A position at the head of the game loop from which the engine still has at least a
  draw in hand: nobody has won, the depth budget covers all remaining plies and the plain
  search scores the position at 0 or more. An outcome is acceptable when it is no loss.
\<close>

definition standing :: "engine \<Rightarrow> board \<Rightarrow> bool \<Rightarrow> bool" where
  "standing e b aiTurn =
     (valid_board b \<and> cells_in_play e b \<and> checkWinner b = NO_WINNER \<and>
      length (getEmptyCells b) < maxDepth e \<and>
      0 \<le> plainMinimax e (maxDepth e) b aiTurn)"

definition acceptable :: "engine \<Rightarrow> nat \<Rightarrow> board \<Rightarrow> outcome \<Rightarrow> bool" where
  "acceptable e fuel b r =
     (case r of
        Over b' \<Rightarrow> checkWinner b' = aiSymbol e \<or> checkWinner b' = DRAW
      | InputExhausted b' \<Rightarrow> True
      | NoMove b' \<Rightarrow> False
      | OutOfFuel b' \<Rightarrow> fuel < length (getEmptyCells b))"


text \<open>
  A search for a proof that the engine can hold at least a draw: some move of the engine
  (winning moves first, then the centre, the corners, the edges) against all moves of the
  opponent (its winning moves first). It is a sufficient test for a score of at least 0.
\<close>

definition aiOrder :: "engine \<Rightarrow> board \<Rightarrow> nat list" where
  "aiOrder e b =
     filter (\<lambda>i. checkWinner (set_cell b i (aiSymbol e)) = aiSymbol e) (getEmptyCells b) @
     filter (\<lambda>i. i < length (cells b) \<and> cells b ! i = EMPTY) [4, 0, 2, 6, 8, 1, 3, 5, 7]"

definition humanOrder :: "engine \<Rightarrow> board \<Rightarrow> nat list" where
  "humanOrder e b =
     filter (\<lambda>i. checkWinner (set_cell b i (humanSymbol e)) = humanSymbol e) (getEmptyCells b) @
     getEmptyCells b"

function holds :: "engine \<Rightarrow> nat \<Rightarrow> board \<Rightarrow> bool \<Rightarrow> bool"
  and holdsSome :: "engine \<Rightarrow> nat \<Rightarrow> nat list \<Rightarrow> board \<Rightarrow> bool"
  and holdsAll :: "engine \<Rightarrow> nat \<Rightarrow> nat list \<Rightarrow> board \<Rightarrow> bool"
where
  "holds e depth b isMaximizing =
     (let winner = checkWinner b
      in if winner = aiSymbol e then True
         else if winner = humanSymbol e then False
         else if winner = DRAW then True
         else (case depth of
                 0 \<Rightarrow> False
               | Suc d \<Rightarrow>
                   if isMaximizing then holdsSome e d (aiOrder e b) b
                   else holdsAll e d (humanOrder e b) b))"
| "holdsSome e d [] b = False"
| "holdsSome e d (i # rest) b =
     (if holds e d (set_cell b i (aiSymbol e)) False then True else holdsSome e d rest b)"
| "holdsAll e d [] b = True"
| "holdsAll e d (i # rest) b =
     (if holds e d (set_cell b i (humanSymbol e)) True then holdsAll e d rest b else False)"
  by pat_completeness auto
termination
  by (relation "measures
        [\<lambda>x. case x of
            Inl (e, depth, b, m) \<Rightarrow> 2 * depth
          | Inr (Inl (e, d, cs, b)) \<Rightarrow> 2 * d + 1
          | Inr (Inr (e, d, cs, b)) \<Rightarrow> 2 * d + 1,
         \<lambda>x. case x of
            Inl (e, depth, b, m) \<Rightarrow> 0
          | Inr (Inl (e, d, cs, b)) \<Rightarrow> length cs
          | Inr (Inr (e, d, cs, b)) \<Rightarrow> length cs]") auto

section \<open>Win lines\<close>

lemma linesOk_3_to_6: "linesOk 3" "linesOk 4" "linesOk 5" "linesOk 6"
  by code_simp+

lemma linesOk_range:
  assumes "3 \<le> n" and "n \<le> 6"
  shows "linesOk n"
proof -
  from assms have "n = 3 \<or> n = 4 \<or> n = 5 \<or> n = 6" by arith
  then show ?thesis using linesOk_3_to_6 by auto
qed

lemma linesInRange_3_to_6: "linesInRange 3" "linesInRange 4" "linesInRange 5" "linesInRange 6"
  by code_simp+

lemma valid_board_lines:
  assumes "valid_board b" and "line \<in> set (winLines b)"
  shows "line \<noteq> []" and "\<forall>idx \<in> set line. idx < length (cells b)"
proof -
  from assms(1) have "boardSize b = 3 \<or> boardSize b = 4 \<or> boardSize b = 5 \<or> boardSize b = 6"
    unfolding valid_board_def by arith
  then have "linesInRange (boardSize b)" using linesInRange_3_to_6 by auto
  with assms show "line \<noteq> []" and "\<forall>idx \<in> set line. idx < length (cells b)"
    unfolding valid_board_def linesInRange_def list_all_iff by auto
qed

lemma valid_boardOf: "3 \<le> n \<Longrightarrow> n \<le> 6 \<Longrightarrow> length cs = n * n \<Longrightarrow> valid_board (boardOf n cs)"
  by (simp add: valid_board_def boardOf_def)

lemma valid_board_set_cell [simp]: "valid_board (set_cell b i s) = valid_board b"
  by (simp add: valid_board_def set_cell_def)

text \<open>
  Claim C8, as far as it holds. For every size from 3 to 6 the constructor succeeds and
  builds the board of that size: \<open>size * size\<close> blank cells and \<open>2 * size + 2\<close> win
  lines, which are the rows in order, then the columns in order, then the main diagonal
  and the anti-diagonal; each line has \<open>size\<close> indices. An index of the board lies on
  its row, on its column and on as many diagonals as pass through it, so on 2, 3 or 4
  lines, not on 4 lines throughout.
\<close>

theorem winLines_structure:
  assumes "3 \<le> sz" and "sz \<le> 6"
  shows "\<exists>b. Board sz = Inr b \<and>
           getSize b = sz \<and> boardSize b = nat sz \<and>
           cells b = replicate (nat sz * nat sz) EMPTY \<and>
           length (cells b) = nat sz * nat sz \<and>
           int (length (winLines b)) = 2 * sz + 2 \<and>
           length (winLines b) = 2 * nat sz + 2 \<and>
           winLines b = map (rowLine (nat sz)) [0..<nat sz] @
                        map (colLine (nat sz)) [0..<nat sz] @
                        [diagLine (nat sz), antiLine (nat sz)] \<and>
           (\<forall>line \<in> set (winLines b). length line = nat sz) \<and>
           (\<forall>i < nat sz * nat sz.
              linesThrough (winLines b) i = 2 + onDiagonals (nat sz) i \<and>
              2 \<le> linesThrough (winLines b) i \<and> linesThrough (winLines b) i \<le> 4)"
proof -
  let ?b = "\<lparr>boardSize = nat sz, cells = replicate (nat sz * nat sz) EMPTY,
                winLines = generateWinLines (nat sz)\<rparr>"
  from assms have n: "3 \<le> nat sz" "nat sz \<le> 6" by auto
  have ok: "linesOk (nat sz)" by (rule linesOk_range [OF n])
  have B: "Board sz = Inr ?b"
    using assms by (simp add: Board_def)
  have od: "\<And>i. onDiagonals (nat sz) i \<le> 2" by (simp add: onDiagonals_def)
  have sizes: "getSize ?b = sz" "boardSize ?b = nat sz"
    "cells ?b = replicate (nat sz * nat sz) EMPTY" "length (cells ?b) = nat sz * nat sz"
    using assms by (simp_all add: getSize_def)
  from ok have parts:
    "length (generateWinLines (nat sz)) = 2 * nat sz + 2"
    "generateWinLines (nat sz) = map (rowLine (nat sz)) [0..<nat sz] @
        map (colLine (nat sz)) [0..<nat sz] @ [diagLine (nat sz), antiLine (nat sz)]"
    "list_all (\<lambda>l. length l = nat sz) (generateWinLines (nat sz))"
    "list_all (\<lambda>i. linesThrough (generateWinLines (nat sz)) i = 2 + onDiagonals (nat sz) i)
       [0..<nat sz * nat sz]"
    unfolding linesOk_def Let_def by blast+
  have wl: "winLines ?b = generateWinLines (nat sz)" by simp
  have len: "length (winLines ?b) = 2 * nat sz + 2"
    unfolding wl by (rule parts(1))
  then have ilen: "int (length (winLines ?b)) = 2 * sz + 2" using assms by simp
  have shape: "winLines ?b = map (rowLine (nat sz)) [0..<nat sz] @
                        map (colLine (nat sz)) [0..<nat sz] @
                        [diagLine (nat sz), antiLine (nat sz)]"
    unfolding wl by (rule parts(2))
  have each: "\<forall>line \<in> set (winLines ?b). length line = nat sz"
    unfolding wl using parts(3) by (simp only: list_all_iff)
  have through: "\<forall>i < nat sz * nat sz.
              linesThrough (winLines ?b) i = 2 + onDiagonals (nat sz) i \<and>
              2 \<le> linesThrough (winLines ?b) i \<and> linesThrough (winLines ?b) i \<le> 4"
    unfolding wl
  proof (intro allI impI)
    fix i assume "i < nat sz * nat sz"
    then have "i \<in> set [0..<nat sz * nat sz]" by simp
    with parts(4) have "linesThrough (generateWinLines (nat sz)) i = 2 + onDiagonals (nat sz) i"
      unfolding list_all_iff by blast
    with od [of i] show "linesThrough (generateWinLines (nat sz)) i = 2 + onDiagonals (nat sz) i \<and>
              2 \<le> linesThrough (generateWinLines (nat sz)) i \<and>
              linesThrough (generateWinLines (nat sz)) i \<le> 4" by simp
  qed
  from B sizes len ilen shape each through show ?thesis by blast
qed

theorem winLines_structure_witness:
  "(3::int) \<le> 5 \<and> (5::int) \<le> 6 \<and>
   (\<exists>b. Board 5 = Inr b \<and> getSize b = 5 \<and> length (cells b) = 25 \<and>
        length (winLines b) = 12 \<and>
        (\<forall>line \<in> set (winLines b). length line = 5) \<and>
        linesThrough (winLines b) 12 = 4 \<and> linesThrough (winLines b) 0 = 3 \<and>
        linesThrough (winLines b) 1 = 2)"
proof -
  from winLines_structure [of 5] obtain b where b: "Board 5 = Inr b" "getSize b = 5"
    "length (cells b) = nat 5 * nat 5"
    "length (winLines b) = 2 * nat 5 + 2"
    "\<forall>line \<in> set (winLines b). length line = nat 5"
    "\<forall>i < nat 5 * nat 5. linesThrough (winLines b) i = 2 + onDiagonals (nat 5) i"
    by auto
  from b(6) have "linesThrough (winLines b) 12 = 2 + onDiagonals 5 12"
    and "linesThrough (winLines b) 0 = 2 + onDiagonals 5 0"
    and "linesThrough (winLines b) 1 = 2 + onDiagonals 5 1" by simp_all
  then have "linesThrough (winLines b) 12 = 4" and "linesThrough (winLines b) 0 = 3"
    and "linesThrough (winLines b) 1 = 2"
    by (simp_all add: onDiagonals_def)
  with b show ?thesis by auto
qed

text \<open>
  On the 3x3 board the index 1 (top edge, middle) lies on two win lines only: the
  first row and the middle column.
\<close>

theorem winLines_four_lines_counterexample:
  "Board 3 = Inr (boardOf 3 (replicate 9 EMPTY)) \<and>
   linesThrough (winLines (boardOf 3 (replicate 9 EMPTY))) 1 = 2"
proof
  show "Board 3 = Inr (boardOf 3 (replicate 9 EMPTY))"
    by (simp add: Board_def boardOf_def)
  show "linesThrough (winLines (boardOf 3 (replicate 9 EMPTY))) 1 = 2"
    by code_simp
qed

section \<open>The evaluator\<close>

lemma fold_countStep:
  "aiSymbol e \<noteq> humanSymbol e \<Longrightarrow>
   fold (countStep e b) line (m, k) =
     (m + countSymbol b (aiSymbol e) line, k + countSymbol b (humanSymbol e) line)"
  by (induction line arbitrary: m k) (auto simp: countStep_def countSymbol_def)

lemma lineCounts_eq:
  "aiSymbol e \<noteq> humanSymbol e \<Longrightarrow>
   lineCounts e b line = (countSymbol b (aiSymbol e) line, countSymbol b (humanSymbol e) line)"
  by (simp add: lineCounts_def fold_countStep)

lemma countSymbol_nonneg: "0 \<le> countSymbol b s line"
  by (simp add: countSymbol_def)

lemma lineStep_eq:
  "aiSymbol e \<noteq> humanSymbol e \<Longrightarrow>
   lineStep e b line score =
     score + lineContribution (int (boardSize b)) (countSymbol b (aiSymbol e) line)
               (countSymbol b (humanSymbol e) line)"
  using countSymbol_nonneg [of b "aiSymbol e" line] countSymbol_nonneg [of b "humanSymbol e" line]
  by (simp add: lineStep_def lineCounts_eq lineContribution_def tierAttack_def tierDefence_def
        getSize_def WIN_SCORE_def Let_def)

lemma fold_lineStep:
  "aiSymbol e \<noteq> humanSymbol e \<Longrightarrow>
   fold (lineStep e b) ls score =
     score + (\<Sum>line\<leftarrow>ls. lineContribution (int (boardSize b)) (countSymbol b (aiSymbol e) line)
               (countSymbol b (humanSymbol e) line))"
  by (induction ls arbitrary: score) (simp_all add: lineStep_eq)

lemma evaluateBoard_sum:
  assumes "aiSymbol e \<noteq> humanSymbol e"
  shows "evaluateBoard e b =
     (\<Sum>line\<leftarrow>winLines b. lineContribution (getSize b) (countSymbol b (aiSymbol e) line)
               (countSymbol b (humanSymbol e) line))"
  using assms by (simp add: evaluateBoard_def getWinLines_def getSize_def fold_lineStep)

text \<open>
  Claim C3. The score of \<open>evaluateBoard\<close> is the sum, over the win lines, of the
  contribution that the table gives for the number of engine symbols and the number of
  opponent symbols on the line: nothing for a contested line, the attack tiers
  1000000, 50000, 1000, 10 for a line of the engine alone, the defence tiers
  -1000000, -55000, -2000, -20 for a line of the opponent alone. The two symbols of an
  engine are different characters.
\<close>

theorem evaluateBoard_line_sum:
  assumes "aiSymbol e \<noteq> humanSymbol e"
  shows "evaluateBoard e b =
     (\<Sum>line\<leftarrow>winLines b. lineContribution (getSize b) (countSymbol b (aiSymbol e) line)
               (countSymbol b (humanSymbol e) line))"
  using assms by (rule evaluateBoard_sum)

theorem evaluateBoard_line_sum_witness:
  "aiSymbol engineXO \<noteq> humanSymbol engineXO \<and>
   evaluateBoard engineXO (boardOf 3 ''XX OO    '') =
     (\<Sum>line\<leftarrow>winLines (boardOf 3 ''XX OO    '').
        lineContribution 3 (countSymbol (boardOf 3 ''XX OO    '') CHR ''X'' line)
          (countSymbol (boardOf 3 ''XX OO    '') CHR ''O'' line)) \<and>
   evaluateBoard engineXO (boardOf 3 ''XX OO    '') = - 7000"
proof -
  have ne: "aiSymbol engineXO \<noteq> humanSymbol engineXO" by (simp add: engineXO_def)
  have v: "evaluateBoard engineXO (boardOf 3 ''XX OO    '') = - 7000" by code_simp
  show ?thesis
    using ne v evaluateBoard_line_sum [OF ne, of "boardOf 3 ''XX OO    ''"]
    by (simp add: engineXO_def getSize_def boardOf_def)
qed

lemma contribution_swap:
  "0 \<le> m \<Longrightarrow> 0 \<le> k \<Longrightarrow>
   lineContribution n k m = - lineContribution n m k - defenceSurplus n m k"
  by (simp add: lineContribution_def defenceSurplus_def)

lemma tier_le: "tierAttack n k \<le> tierDefence n k"
  unfolding tierAttack_def tierDefence_def by (simp split: if_splits)

lemma defenceSurplus_nonneg: "0 \<le> defenceSurplus n m k"
  using tier_le [of n m] tier_le [of n k] by (simp add: defenceSurplus_def)

lemma sum_list_contribution_swap:
  "(\<Sum>line\<leftarrow>ls. lineContribution n (countSymbol b h line) (countSymbol b a line)) =
   - (\<Sum>line\<leftarrow>ls. lineContribution n (countSymbol b a line) (countSymbol b h line))
   - (\<Sum>line\<leftarrow>ls. defenceSurplus n (countSymbol b a line) (countSymbol b h line))"
proof (induction ls)
  case Nil
  show ?case by simp
next
  case (Cons line ls)
  have "lineContribution n (countSymbol b h line) (countSymbol b a line) =
        - lineContribution n (countSymbol b a line) (countSymbol b h line)
        - defenceSurplus n (countSymbol b a line) (countSymbol b h line)"
    by (rule contribution_swap) (rule countSymbol_nonneg)+
  with Cons show ?case by simp
qed

text \<open>
  Claim C9, as far as it holds. With the two symbols exchanged the score is the negated
  score less the defence surplus of every line that one player holds alone: a partial
  line counts 50000, 1000 or 10 for the engine but 55000, 2000 or 20 against it. So the
  exchanged score never exceeds the negated score, and equals it exactly when no line
  is in a partial tier.
\<close>

theorem evaluateBoard_swap:
  assumes "aiSymbol e \<noteq> humanSymbol e"
  shows "evaluateBoard (swapSymbols e) b =
           - evaluateBoard e b
           - (\<Sum>line\<leftarrow>winLines b. defenceSurplus (getSize b) (countSymbol b (aiSymbol e) line)
                 (countSymbol b (humanSymbol e) line)) \<and>
         evaluateBoard (swapSymbols e) b \<le> - evaluateBoard e b \<and>
         (evaluateBoard (swapSymbols e) b = - evaluateBoard e b \<longleftrightarrow>
            (\<forall>line \<in> set (winLines b).
               defenceSurplus (getSize b) (countSymbol b (aiSymbol e) line)
                 (countSymbol b (humanSymbol e) line) = 0))"
proof -
  let ?f = "\<lambda>line. defenceSurplus (getSize b) (countSymbol b (aiSymbol e) line)
                 (countSymbol b (humanSymbol e) line)"
  have sw: "aiSymbol (swapSymbols e) \<noteq> humanSymbol (swapSymbols e)"
    using assms by (simp add: swapSymbols_def)
  have eq: "evaluateBoard (swapSymbols e) b = - evaluateBoard e b - (\<Sum>line\<leftarrow>winLines b. ?f line)"
    unfolding evaluateBoard_sum [OF sw] evaluateBoard_sum [OF assms]
    using sum_list_contribution_swap [of "getSize b" b "humanSymbol e" "aiSymbol e" "winLines b"]
    by (simp add: swapSymbols_def)
  have nn: "\<And>x. x \<in> set (map ?f (winLines b)) \<Longrightarrow> 0 \<le> x"
    by (auto simp: defenceSurplus_nonneg)
  have ge: "0 \<le> (\<Sum>line\<leftarrow>winLines b. ?f line)"
    by (rule sum_list_nonneg) (rule nn)
  have zero: "(\<Sum>line\<leftarrow>winLines b. ?f line) = 0 \<longleftrightarrow> (\<forall>line \<in> set (winLines b). ?f line = 0)"
    using sum_list_nonneg_eq_0_iff [of "map ?f (winLines b)"] nn by auto
  from eq have "evaluateBoard (swapSymbols e) b = - evaluateBoard e b \<longleftrightarrow>
                (\<Sum>line\<leftarrow>winLines b. ?f line) = 0" by linarith
  with zero eq ge show ?thesis by linarith
qed

theorem evaluateBoard_swap_witness:
  "aiSymbol engineXO \<noteq> humanSymbol engineXO \<and>
   evaluateBoard engineXO (boardOf 3 ''XXXOO    '') = 946000 \<and>
   evaluateBoard (swapSymbols engineXO) (boardOf 3 ''XXXOO    '') = - 952000 \<and>
   evaluateBoard (swapSymbols engineXO) (boardOf 3 ''XXXOO    '')
     \<le> - evaluateBoard engineXO (boardOf 3 ''XXXOO    '')"
proof -
  have ne: "aiSymbol engineXO \<noteq> humanSymbol engineXO" by (simp add: engineXO_def)
  have v: "evaluateBoard engineXO (boardOf 3 ''XXXOO    '') = 946000" by code_simp
  have w: "evaluateBoard (swapSymbols engineXO) (boardOf 3 ''XXXOO    '') = - 952000" by code_simp
  show ?thesis
    using ne v w evaluateBoard_swap [OF ne, of "boardOf 3 ''XXXOO    ''"] by simp
qed

text \<open>
  With a single \<open>X\<close> in the corner of the 3x3 board the engine \<open>X\<close> scores 3000 and the
  engine \<open>O\<close> scores -6000.
\<close>

theorem evaluateBoard_symmetry_counterexample:
  "evaluateBoard engineXO (boardOf 3 ''X        '') = 3000 \<and>
   evaluateBoard (swapSymbols engineXO) (boardOf 3 ''X        '') = - 6000"
  by code_simp

section \<open>Winner detection\<close>

lemma checkLines_find:
  "checkLines cs ls = map_option (\<lambda>line. cs ! (line ! 0)) (find (won cs) ls)"
  by (induction ls) (auto simp: won_def Let_def)

lemma won_uniform:
  "line \<noteq> [] \<Longrightarrow> won (cells b) line \<longleftrightarrow> (\<exists>s. lineUniform b s line)"
  "line \<noteq> [] \<Longrightarrow> lineUniform b s line \<Longrightarrow> cells b ! (line ! 0) = s"
  by (cases line; auto simp: won_def allSame_def lineUniform_def)+

lemma uniform_in_cells:
  assumes "valid_board b" and "line \<in> set (winLines b)" and "lineUniform b s line"
  shows "s \<in> set (cells b)"
proof -
  from valid_board_lines [OF assms(1,2)] obtain i where "i \<in> set line" "i < length (cells b)"
    by (cases line) auto
  moreover from this assms(3) have "cells b ! i = s" by (simp add: lineUniform_def list_all_iff)
  ultimately show ?thesis by (metis nth_mem)
qed

text \<open>
  Claim C2, as far as it holds. On a board of the program whose cells hold neither of
  the two marker characters (\<open>'D'\<close> and NUL), \<open>checkWinner\<close> answers with a symbol \<open>s\<close>
  exactly when the first win line, in generation order, that is filled with one
  non-blank symbol is filled with \<open>s\<close>; it answers Draw exactly when the board is full
  and no line is uniform, and "no winner" exactly when the board is not full and no line
  is uniform. The three answers exclude each other. When two lines are filled with
  different symbols, only the symbol of the earlier line is returned.
\<close>

theorem checkWinner_outcomes:
  assumes "valid_board b" and "DRAW \<notin> set (cells b)" and "NO_WINNER \<notin> set (cells b)"
  shows "(\<forall>s. (checkWinner b = s \<and> s \<noteq> DRAW \<and> s \<noteq> NO_WINNER) \<longleftrightarrow>
              (\<exists>k < length (winLines b). lineUniform b s (winLines b ! k) \<and>
                 (\<forall>j < k. \<forall>t. \<not> lineUniform b t (winLines b ! j)))) \<and>
         (checkWinner b = DRAW \<longleftrightarrow>
              isFull b \<and> (\<forall>line \<in> set (winLines b). \<forall>t. \<not> lineUniform b t line)) \<and>
         (checkWinner b = NO_WINNER \<longleftrightarrow>
              \<not> isFull b \<and> (\<forall>line \<in> set (winLines b). \<forall>t. \<not> lineUniform b t line))"
proof -
  let ?ls = "winLines b"
  have ne: "\<And>line. line \<in> set ?ls \<Longrightarrow> line \<noteq> []"
    using valid_board_lines(1) [OF assms(1)] by blast
  have wu: "\<And>line. line \<in> set ?ls \<Longrightarrow> won (cells b) line \<longleftrightarrow> (\<exists>s. lineUniform b s line)"
    using won_uniform(1) ne by blast
  have marker: "\<And>line s. line \<in> set ?ls \<Longrightarrow> lineUniform b s line \<Longrightarrow> s \<noteq> DRAW \<and> s \<noteq> NO_WINNER"
    using uniform_in_cells [OF assms(1)] assms(2,3) by blast
  have dn: "DRAW \<noteq> NO_WINNER" by (simp add: DRAW_def NO_WINNER_def)
  show ?thesis
  proof (cases "find (won (cells b)) ?ls")
    case None
    then have no: "\<forall>line \<in> set ?ls. \<forall>t. \<not> lineUniform b t line"
      using wu by (auto simp: find_None_iff)
    have cw: "checkWinner b = (if isFull b then DRAW else NO_WINNER)"
      using None by (simp add: checkWinner_def checkLines_find)
    have "\<And>s k. k < length ?ls \<Longrightarrow> \<not> lineUniform b s (?ls ! k)" using no by simp
    then show ?thesis using no cw dn by auto
  next
    case (Some line)
    then obtain k where k: "k < length ?ls" "won (cells b) (?ls ! k)" "line = ?ls ! k"
      "\<forall>j < k. \<not> won (cells b) (?ls ! j)"
      by (auto simp: find_Some_iff)
    let ?s = "cells b ! (line ! 0)"
    have lin: "line \<in> set ?ls" using k by simp
    have cw: "checkWinner b = ?s" using Some by (simp add: checkWinner_def checkLines_find)
    from k wu lin obtain s where s: "lineUniform b s line" by blast
    with won_uniform(2) [OF ne [OF lin]] have ss: "s = ?s" by simp
    have first: "\<forall>j < k. \<forall>t. \<not> lineUniform b t (?ls ! j)"
      using k(4) k(1) wu by (metis nth_mem order.strict_trans)
    have m: "?s \<noteq> DRAW \<and> ?s \<noteq> NO_WINNER" using marker [OF lin] s ss by simp
    have uniq: "\<And>t k'. k' < length ?ls \<Longrightarrow> lineUniform b t (?ls ! k') \<Longrightarrow>
        (\<forall>j < k'. \<forall>u. \<not> lineUniform b u (?ls ! j)) \<Longrightarrow> t = ?s"
    proof -
      fix t k' assume a: "k' < length ?ls" "lineUniform b t (?ls ! k')"
        "\<forall>j < k'. \<forall>u. \<not> lineUniform b u (?ls ! j)"
      have "k' = k"
      proof (rule ccontr)
        assume "k' \<noteq> k"
        then consider "k' < k" | "k < k'" by arith
        then show False
        proof cases
          case 1 then show ?thesis using first a(2) by blast
        next
          case 2 then show ?thesis using a(3) s k(3) by blast
        qed
      qed
      with a(2) k(3) won_uniform(2) [OF ne [OF lin]] show "t = ?s" by simp
    qed
    have A: "\<forall>s'. (checkWinner b = s' \<and> s' \<noteq> DRAW \<and> s' \<noteq> NO_WINNER) \<longleftrightarrow>
              (\<exists>k < length ?ls. lineUniform b s' (?ls ! k) \<and>
                 (\<forall>j < k. \<forall>t. \<not> lineUniform b t (?ls ! j)))"
    proof (intro allI iffI)
      fix s' assume "checkWinner b = s' \<and> s' \<noteq> DRAW \<and> s' \<noteq> NO_WINNER"
      then have "s' = s" using cw ss by simp
      then show "\<exists>k < length ?ls. lineUniform b s' (?ls ! k) \<and>
                 (\<forall>j < k. \<forall>t. \<not> lineUniform b t (?ls ! j))"
        using k(1,3) s first by blast
    next
      fix s' assume "\<exists>k < length ?ls. lineUniform b s' (?ls ! k) \<and>
                 (\<forall>j < k. \<forall>t. \<not> lineUniform b t (?ls ! j))"
      then have "s' = ?s" using uniq by blast
      then show "checkWinner b = s' \<and> s' \<noteq> DRAW \<and> s' \<noteq> NO_WINNER" using cw m by simp
    qed
    have ex: "\<exists>line \<in> set ?ls. \<exists>t. lineUniform b t line" using lin s by blast
    show ?thesis using A cw m ex by auto
  qed
qed

theorem checkWinner_outcomes_witness:
  "valid_board (boardOf 3 ''XXXOO    '') \<and> DRAW \<notin> set (cells (boardOf 3 ''XXXOO    '')) \<and>
   NO_WINNER \<notin> set (cells (boardOf 3 ''XXXOO    '')) \<and>
   checkWinner (boardOf 3 ''XXXOO    '') = CHR ''X'' \<and>
   (\<exists>k < length (winLines (boardOf 3 ''XXXOO    '')).
       lineUniform (boardOf 3 ''XXXOO    '') CHR ''X'' (winLines (boardOf 3 ''XXXOO    '') ! k)) \<and>
   \<not> isFull (boardOf 3 ''XXXOO    '')"
proof -
  have v: "valid_board (boardOf 3 ''XXXOO    '')" by (simp add: valid_boardOf)
  have d: "DRAW \<notin> set (cells (boardOf 3 ''XXXOO    ''))"
    "NO_WINNER \<notin> set (cells (boardOf 3 ''XXXOO    ''))"
    by (simp_all add: boardOf_def DRAW_def NO_WINNER_def)
  have w: "checkWinner (boardOf 3 ''XXXOO    '') = CHR ''X''" by code_simp
  have m: "CHR ''X'' \<noteq> DRAW" "CHR ''X'' \<noteq> NO_WINNER" by (simp_all add: DRAW_def NO_WINNER_def)
  have dn: "DRAW \<noteq> CHR ''X''" by (simp add: DRAW_def)
  from checkWinner_outcomes [OF v d]
  have "(checkWinner (boardOf 3 ''XXXOO    '') = CHR ''X'' \<and> CHR ''X'' \<noteq> DRAW \<and> CHR ''X'' \<noteq> NO_WINNER) \<longleftrightarrow>
        (\<exists>k < length (winLines (boardOf 3 ''XXXOO    '')).
            lineUniform (boardOf 3 ''XXXOO    '') CHR ''X'' (winLines (boardOf 3 ''XXXOO    '') ! k) \<and>
            (\<forall>j < k. \<forall>t. \<not> lineUniform (boardOf 3 ''XXXOO    '') t (winLines (boardOf 3 ''XXXOO    '') ! j)))"
    and nw: "checkWinner (boardOf 3 ''XXXOO    '') = NO_WINNER \<longleftrightarrow>
        \<not> isFull (boardOf 3 ''XXXOO    '') \<and>
        (\<forall>line \<in> set (winLines (boardOf 3 ''XXXOO    '')). \<forall>t. \<not> lineUniform (boardOf 3 ''XXXOO    '') t line)"
    by blast+
  with w m have ex: "\<exists>k < length (winLines (boardOf 3 ''XXXOO    '')).
       lineUniform (boardOf 3 ''XXXOO    '') CHR ''X'' (winLines (boardOf 3 ''XXXOO    '') ! k)"
    by blast
  have nf: "\<not> isFull (boardOf 3 ''XXXOO    '')" by code_simp
  show ?thesis using v d w ex nf by blast
qed

text \<open>
  With the first row full of \<open>X\<close> and the second row full of \<open>O\<close>, a win line has every
  cell equal to \<open>O\<close>, but \<open>checkWinner\<close> returns \<open>X\<close>.
\<close>

theorem checkWinner_two_lines_counterexample:
  "valid_board (boardOf 3 ''XXXOOO   '') \<and>
   lineUniform (boardOf 3 ''XXXOOO   '') CHR ''O'' (winLines (boardOf 3 ''XXXOOO   '') ! 1) \<and>
   checkWinner (boardOf 3 ''XXXOOO   '') = CHR ''X'' \<and>
   checkWinner (boardOf 3 ''XXXOOO   '') \<noteq> CHR ''O''"
proof -
  have "valid_board (boardOf 3 ''XXXOOO   '')" by (simp add: valid_boardOf)
  moreover have "lineUniform (boardOf 3 ''XXXOOO   '') CHR ''O'' (winLines (boardOf 3 ''XXXOOO   '') ! 1)"
    by code_simp
  moreover have "checkWinner (boardOf 3 ''XXXOOO   '') = CHR ''X''" by code_simp
  ultimately show ?thesis by simp
qed

section \<open>The search leaves the board as it found it\<close>

declare minimax.simps [simp del]

lemmas minimax_eq = minimax.simps [unfolded Let_def]

lemma set_cell_restore:
  "i < length (cells b) \<Longrightarrow> cells b ! i = EMPTY \<Longrightarrow> set_cell (set_cell b i s) i EMPTY = b"
  by (simp add: set_cell_def list_update_same_conv)

lemma search_restores:
  "snd (minimax e depth b alpha beta isMaximizing) = b"
  "(\<forall>i \<in> set cs. i < length (cells b) \<and> cells b ! i = EMPTY) \<longrightarrow>
     snd (maxLoop e d cs b alpha beta maxEval) = b"
  "(\<forall>i \<in> set cs. i < length (cells b) \<and> cells b ! i = EMPTY) \<longrightarrow>
     snd (minLoop e d cs b alpha beta minEval) = b"
proof (induction e depth b alpha beta isMaximizing and e d cs b alpha beta maxEval
        and e d cs b alpha beta minEval rule: minimax_maxLoop_minLoop.induct)
  case (1 e depth b alpha beta isMaximizing)
  have ec: "\<forall>i \<in> set (getEmptyCells b). i < length (cells b) \<and> cells b ! i = EMPTY"
    by (simp add: getEmptyCells_def)
  show ?case
    using 1 ec by (simp add: minimax_eq split: nat.split)
next
  case (2 e d b alpha beta maxEval)
  show ?case by simp
next
  case (3 e d i rest b alpha beta maxEval)
  show ?case
  proof
    assume H: "\<forall>j \<in> set (i # rest). j < length (cells b) \<and> cells b ! j = EMPTY"
    obtain s b' where r: "minimax e d (set_cell b i (aiSymbol e)) alpha beta False = (s, b')"
      by (cases "minimax e d (set_cell b i (aiSymbol e)) alpha beta False")
    from "3.IH"(1) r have b': "b' = set_cell b i (aiSymbol e)" by simp
    from H have restored: "set_cell b' i EMPTY = b" unfolding b' by (simp add: set_cell_restore)
    show "snd (maxLoop e d (i # rest) b alpha beta maxEval) = b"
    proof (cases "beta \<le> max alpha s")
      case True
      then show ?thesis using r restored by simp
    next
      case False
      from "3.IH"(2) [OF r [symmetric] False] H restored
      have "snd (maxLoop e d rest b (max alpha s) beta (max maxEval s)) = b" by simp
      then show ?thesis using r restored False by simp
    qed
  qed
next
  case (4 e d b alpha beta minEval)
  show ?case by simp
next
  case (5 e d i rest b alpha beta minEval)
  show ?case
  proof
    assume H: "\<forall>j \<in> set (i # rest). j < length (cells b) \<and> cells b ! j = EMPTY"
    obtain s b' where r: "minimax e d (set_cell b i (humanSymbol e)) alpha beta True = (s, b')"
      by (cases "minimax e d (set_cell b i (humanSymbol e)) alpha beta True")
    from "5.IH"(1) r have b': "b' = set_cell b i (humanSymbol e)" by simp
    from H have restored: "set_cell b' i EMPTY = b" unfolding b' by (simp add: set_cell_restore)
    show "snd (minLoop e d (i # rest) b alpha beta minEval) = b"
    proof (cases "min beta s \<le> alpha")
      case True
      then show ?thesis using r restored by simp
    next
      case False
      from "5.IH"(2) [OF r [symmetric] False] H restored
      have "snd (minLoop e d rest b alpha (min beta s) (min minEval s)) = b" by simp
      then show ?thesis using r restored False by simp
    qed
  qed
qed

lemma bestLoop_restores:
  "\<forall>i \<in> set cs. i < length (cells b) \<and> cells b ! i = EMPTY \<Longrightarrow>
   snd (bestLoop e cs b bestScore bestMove) = b"
proof (induction cs arbitrary: bestScore bestMove)
  case Nil
  show ?case by simp
next
  case (Cons i rest)
  obtain s b' where r: "minimax e (maxDepth e) (set_cell b i (aiSymbol e)) INT_MIN INT_MAX False = (s, b')"
    by (cases "minimax e (maxDepth e) (set_cell b i (aiSymbol e)) INT_MIN INT_MAX False")
  from search_restores(1) [of e "maxDepth e" "set_cell b i (aiSymbol e)" INT_MIN INT_MAX False] r
  have b': "b' = set_cell b i (aiSymbol e)" by simp
  from Cons.prems have restored: "set_cell b' i EMPTY = b" unfolding b' by (simp add: set_cell_restore)
  from Cons.prems have rest: "\<forall>j \<in> set rest. j < length (cells b) \<and> cells b ! j = EMPTY" by simp
  show ?case using r restored Cons.IH [OF rest] by simp
qed

lemma getEmptyCells_empty:
  "i \<in> set (getEmptyCells b) \<Longrightarrow> i < length (cells b) \<and> cells b ! i = EMPTY"
  by (simp add: getEmptyCells_def)

text \<open>
  Claim C6. The board that \<open>minimax\<close> and \<open>getBestMove\<close> leave behind is the board they
  were given: every placement is taken back, also where the loop stops at the cutoff.
  Writing a symbol into an empty cell and then writing \<open>EMPTY\<close> into it gives the board
  back.
\<close>

theorem search_leaves_board_unchanged:
  "snd (minimax e depth b alpha beta isMaximizing) = b \<and>
   snd (getBestMove e b) = b \<and>
   (index < length (cells b) \<and> isEmpty b index \<longrightarrow>
      set_cell (set_cell b index symbol) index EMPTY = b)"
  using search_restores(1) [of e depth b alpha beta isMaximizing]
    bestLoop_restores [of "getEmptyCells b" b e INT_MIN "- 1"]
  by (simp add: getBestMove_def getEmptyCells_empty set_cell_restore isEmpty_def)

theorem search_leaves_board_unchanged_witness:
  "2 < length (cells (boardOf 3 ''XO       '')) \<and> isEmpty (boardOf 3 ''XO       '') 2 \<and>
   set_cell (set_cell (boardOf 3 ''XO       '') 2 CHR ''X'') 2 EMPTY = boardOf 3 ''XO       '' \<and>
   snd (minimax engineXO 100 (boardOf 3 ''XO       '') INT_MIN INT_MAX True) = boardOf 3 ''XO       '' \<and>
   snd (getBestMove engineXO (boardOf 3 ''XO       '')) = boardOf 3 ''XO       ''"
  using search_leaves_board_unchanged
          [of engineXO 100 "boardOf 3 ''XO       ''" INT_MIN INT_MAX True 2 "CHR ''X''"]
  by (simp add: boardOf_def isEmpty_def EMPTY_def)


section \<open>Terminal positions\<close>

text \<open>
  Claim C5. Whatever the depth, the window and the side to move: on a board that
  \<open>checkWinner\<close> reports as won by the engine's symbol \<open>minimax\<close> returns 1000000, on one
  won by the opponent's symbol -1000000, on a draw 0; the evaluator is not asked. The
  two symbols are different and neither is the draw marker \<open>'D'\<close>.
\<close>

theorem minimax_terminal_override:
  assumes "aiSymbol e \<noteq> humanSymbol e" and "aiSymbol e \<noteq> DRAW" and "humanSymbol e \<noteq> DRAW"
  shows "(checkWinner b = aiSymbol e \<longrightarrow> fst (minimax e depth b alpha beta isMaximizing) = 1000000) \<and>
         (checkWinner b = humanSymbol e \<longrightarrow> fst (minimax e depth b alpha beta isMaximizing) = - 1000000) \<and>
         (checkWinner b = DRAW \<longrightarrow> fst (minimax e depth b alpha beta isMaximizing) = 0)"
  using assms by (simp add: minimax_eq WIN_SCORE_def LOSS_SCORE_def)

theorem minimax_terminal_override_witness:
  "aiSymbol engineXO \<noteq> humanSymbol engineXO \<and> aiSymbol engineXO \<noteq> DRAW \<and>
   humanSymbol engineXO \<noteq> DRAW \<and>
   checkWinner (boardOf 3 ''XXXOO    '') = aiSymbol engineXO \<and>
   fst (minimax engineXO 5 (boardOf 3 ''XXXOO    '') INT_MIN INT_MAX True) = 1000000 \<and>
   evaluateBoard engineXO (boardOf 3 ''XXXOO    '') = 946000 \<and>
   checkWinner (boardOf 3 ''OOOXX   X'') = humanSymbol engineXO \<and>
   fst (minimax engineXO 5 (boardOf 3 ''OOOXX   X'') INT_MIN INT_MAX True) = - 1000000 \<and>
   checkWinner (boardOf 3 ''XOXXOOOXX'') = DRAW \<and>
   fst (minimax engineXO 5 (boardOf 3 ''XOXXOOOXX'') INT_MIN INT_MAX True) = 0"
proof -
  have e: "aiSymbol engineXO \<noteq> humanSymbol engineXO" "aiSymbol engineXO \<noteq> DRAW"
    "humanSymbol engineXO \<noteq> DRAW" by (simp_all add: engineXO_def DRAW_def)
  have w: "checkWinner (boardOf 3 ''XXXOO    '') = aiSymbol engineXO"
    "checkWinner (boardOf 3 ''OOOXX   X'') = humanSymbol engineXO"
    "checkWinner (boardOf 3 ''XOXXOOOXX'') = DRAW" by code_simp+
  have v: "evaluateBoard engineXO (boardOf 3 ''XXXOO    '') = 946000" by code_simp
  show ?thesis
    using e w v
      minimax_terminal_override [OF e, of "boardOf 3 ''XXXOO    ''" 5 INT_MIN INT_MAX True]
      minimax_terminal_override [OF e, of "boardOf 3 ''OOOXX   X''" 5 INT_MIN INT_MAX True]
      minimax_terminal_override [OF e, of "boardOf 3 ''XOXXOOOXX''" 5 INT_MIN INT_MAX True]
    by simp
qed

section \<open>Alpha-beta pruning against the plain search\<close>

declare plainMinimax.simps [simp del]

lemmas plainMinimax_eq = plainMinimax.simps [unfolded Let_def]

lemma fishburn_refl: "fishburn a b v v"
  by (simp add: fishburn_def)

lemma fishburn_exact: "fishburn a b v r \<Longrightarrow> a \<le> v \<Longrightarrow> v \<le> b \<Longrightarrow> r = v"
  by (auto simp: fishburn_def)

lemma fishburn_max_cut:
  "a < b \<Longrightarrow> fishburn a b v s \<Longrightarrow> b \<le> max a s \<Longrightarrow> m \<le> w \<Longrightarrow> fishburn a b (max v w) (max m s)"
  by (auto simp: fishburn_def max_def split: if_splits)

lemma fishburn_max_go:
  "a < b \<Longrightarrow> fishburn a b v s \<Longrightarrow> \<not> b \<le> max a s \<Longrightarrow> fishburn (max a s) b (max s w) r \<Longrightarrow>
   fishburn a b (max v w) r"
  unfolding fishburn_def max_def by (auto split: if_splits)

lemma fishburn_min_cut:
  "a < b \<Longrightarrow> fishburn a b v s \<Longrightarrow> min b s \<le> a \<Longrightarrow> w \<le> m \<Longrightarrow> fishburn a b (min v w) (min m s)"
  by (auto simp: fishburn_def min_def split: if_splits)

lemma fishburn_min_go:
  "a < b \<Longrightarrow> fishburn a b v s \<Longrightarrow> \<not> min b s \<le> a \<Longrightarrow> fishburn a (min b s) (min s w) r \<Longrightarrow>
   fishburn a b (min v w) r"
  unfolding fishburn_def min_def by (auto split: if_splits)

lemma plainMax_max: "plainMax e d cs b (max m x) = max x (plainMax e d cs b m)"
proof (induction cs arbitrary: m)
  case Nil
  show ?case by (simp add: max.commute)
next
  case (Cons i rest)
  have "max (max m x) (plainMinimax e d (set_cell b i (aiSymbol e)) False) =
        max (max m (plainMinimax e d (set_cell b i (aiSymbol e)) False)) x"
    by (simp add: max_def)
  then show ?case using Cons [of "max m (plainMinimax e d (set_cell b i (aiSymbol e)) False)"]
    by simp
qed

lemma plainMin_min: "plainMin e d cs b (min m x) = min x (plainMin e d cs b m)"
proof (induction cs arbitrary: m)
  case Nil
  show ?case by (simp add: min.commute)
next
  case (Cons i rest)
  have "min (min m x) (plainMinimax e d (set_cell b i (humanSymbol e)) True) =
        min (min m (plainMinimax e d (set_cell b i (humanSymbol e)) True)) x"
    by (simp add: min_def)
  then show ?case using Cons [of "min m (plainMinimax e d (set_cell b i (humanSymbol e)) True)"]
    by simp
qed

lemma plainMax_ge: "m \<le> plainMax e d cs b m"
proof (induction cs arbitrary: m)
  case Nil
  show ?case by simp
next
  case (Cons i rest)
  have "m \<le> max m (plainMinimax e d (set_cell b i (aiSymbol e)) False)" by simp
  also have "\<dots> \<le> plainMax e d rest b (max m (plainMinimax e d (set_cell b i (aiSymbol e)) False))"
    by (rule Cons)
  finally show ?case by simp
qed

lemma plainMin_le: "plainMin e d cs b m \<le> m"
proof (induction cs arbitrary: m)
  case Nil
  show ?case by simp
next
  case (Cons i rest)
  have "plainMin e d rest b (min m (plainMinimax e d (set_cell b i (humanSymbol e)) True))
          \<le> min m (plainMinimax e d (set_cell b i (humanSymbol e)) True)"
    by (rule Cons)
  also have "\<dots> \<le> m" by simp
  finally show ?case by simp
qed

lemma search_fishburn:
  "alpha < beta \<longrightarrow>
     fishburn alpha beta (plainMinimax e depth b isMaximizing)
       (fst (minimax e depth b alpha beta isMaximizing))"
  "alpha < beta \<longrightarrow> (\<forall>i \<in> set cs. i < length (cells b) \<and> cells b ! i = EMPTY) \<longrightarrow>
     fishburn alpha beta (plainMax e d cs b maxEval) (fst (maxLoop e d cs b alpha beta maxEval))"
  "alpha < beta \<longrightarrow> (\<forall>i \<in> set cs. i < length (cells b) \<and> cells b ! i = EMPTY) \<longrightarrow>
     fishburn alpha beta (plainMin e d cs b minEval) (fst (minLoop e d cs b alpha beta minEval))"
proof (induction e depth b alpha beta isMaximizing and e d cs b alpha beta maxEval
        and e d cs b alpha beta minEval rule: minimax_maxLoop_minLoop.induct)
  case (1 e depth b alpha beta isMaximizing)
  have ec: "\<forall>i \<in> set (getEmptyCells b). i < length (cells b) \<and> cells b ! i = EMPTY"
    by (simp add: getEmptyCells_def)
  show ?case
    using 1 ec by (simp add: minimax_eq plainMinimax_eq fishburn_refl split: nat.split)
next
  case (2 e d b alpha beta maxEval)
  show ?case by (simp add: fishburn_refl)
next
  case (3 e d i rest b alpha beta maxEval)
  show ?case
  proof (intro impI)
    assume ab: "alpha < beta"
      and H: "\<forall>j \<in> set (i # rest). j < length (cells b) \<and> cells b ! j = EMPTY"
    obtain s b' where r: "minimax e d (set_cell b i (aiSymbol e)) alpha beta False = (s, b')"
      by (cases "minimax e d (set_cell b i (aiSymbol e)) alpha beta False")
    from search_restores(1) [of e d "set_cell b i (aiSymbol e)" alpha beta False] r
    have b': "b' = set_cell b i (aiSymbol e)" by simp
    from H have restored: "set_cell b' i EMPTY = b" unfolding b' by (simp add: set_cell_restore)
    let ?v = "plainMinimax e d (set_cell b i (aiSymbol e)) False"
    let ?w = "plainMax e d rest b maxEval"
    from "3.IH"(1) ab r have child: "fishburn alpha beta ?v s" by simp
    show "fishburn alpha beta (plainMax e d (i # rest) b maxEval)
            (fst (maxLoop e d (i # rest) b alpha beta maxEval))"
    proof (cases "beta \<le> max alpha s")
      case True
      have "fishburn alpha beta (max ?v ?w) (max maxEval s)"
        by (rule fishburn_max_cut [OF ab child True plainMax_ge])
      then show ?thesis using r True by (simp add: plainMax_max)
    next
      case False
      then have ab': "max alpha s < beta" by (simp add: not_le)
      from "3.IH"(2) [OF r [symmetric] False] ab' H restored
      have "fishburn (max alpha s) beta (plainMax e d rest b (max maxEval s))
              (fst (maxLoop e d rest b (max alpha s) beta (max maxEval s)))" by simp
      then have "fishburn (max alpha s) beta (max s ?w)
              (fst (maxLoop e d rest b (max alpha s) beta (max maxEval s)))"
        by (simp add: plainMax_max)
      from fishburn_max_go [OF ab child False this]
      show ?thesis using r False restored by (simp add: plainMax_max)
    qed
  qed
next
  case (4 e d b alpha beta minEval)
  show ?case by (simp add: fishburn_refl)
next
  case (5 e d i rest b alpha beta minEval)
  show ?case
  proof (intro impI)
    assume ab: "alpha < beta"
      and H: "\<forall>j \<in> set (i # rest). j < length (cells b) \<and> cells b ! j = EMPTY"
    obtain s b' where r: "minimax e d (set_cell b i (humanSymbol e)) alpha beta True = (s, b')"
      by (cases "minimax e d (set_cell b i (humanSymbol e)) alpha beta True")
    from search_restores(1) [of e d "set_cell b i (humanSymbol e)" alpha beta True] r
    have b': "b' = set_cell b i (humanSymbol e)" by simp
    from H have restored: "set_cell b' i EMPTY = b" unfolding b' by (simp add: set_cell_restore)
    let ?v = "plainMinimax e d (set_cell b i (humanSymbol e)) True"
    let ?w = "plainMin e d rest b minEval"
    from "5.IH"(1) ab r have child: "fishburn alpha beta ?v s" by simp
    show "fishburn alpha beta (plainMin e d (i # rest) b minEval)
            (fst (minLoop e d (i # rest) b alpha beta minEval))"
    proof (cases "min beta s \<le> alpha")
      case True
      have "fishburn alpha beta (min ?v ?w) (min minEval s)"
        by (rule fishburn_min_cut [OF ab child True plainMin_le])
      then show ?thesis using r True by (simp add: plainMin_min)
    next
      case False
      then have ab': "alpha < min beta s" by (simp add: not_le)
      from "5.IH"(2) [OF r [symmetric] False] ab' H restored
      have "fishburn alpha (min beta s) (plainMin e d rest b (min minEval s))
              (fst (minLoop e d rest b alpha (min beta s) (min minEval s)))" by simp
      then have "fishburn alpha (min beta s) (min s ?w)
              (fst (minLoop e d rest b alpha (min beta s) (min minEval s)))"
        by (simp add: plainMin_min)
      from fishburn_min_go [OF ab child False this]
      show ?thesis using r False restored by (simp add: plainMin_min)
    qed
  qed
qed

lemma lineStep_bound: "\<bar>lineStep e b line score - score\<bar> \<le> 1000000"
  unfolding lineStep_def Let_def WIN_SCORE_def by (simp split: if_splits)

lemma fold_lineStep_bound: "\<bar>fold (lineStep e b) ls score - score\<bar> \<le> 1000000 * int (length ls)"
proof (induction ls arbitrary: score)
  case Nil
  show ?case by simp
next
  case (Cons line ls)
  have "\<bar>fold (lineStep e b) ls (lineStep e b line score) - lineStep e b line score\<bar>
          \<le> 1000000 * int (length ls)" by (rule Cons)
  with lineStep_bound [of e b line score] show ?case by simp
qed

lemma valid_board_length_lines: "valid_board b \<Longrightarrow> length (winLines b) \<le> 14"
proof -
  assume v: "valid_board b"
  then have "linesOk (boardSize b)" by (simp add: valid_board_def linesOk_range)
  with v show ?thesis by (simp add: linesOk_def Let_def valid_board_def)
qed

lemma evaluateBoard_bounds:
  assumes "valid_board b"
  shows "- 14000000 \<le> evaluateBoard e b" and "evaluateBoard e b \<le> 14000000"
  using fold_lineStep_bound [of e b "winLines b" 0] valid_board_length_lines [OF assms]
  by (simp_all add: evaluateBoard_def getWinLines_def)

lemma plain_range:
  "valid_board b \<longrightarrow> INT_MIN \<le> plainMinimax e depth b isMaximizing \<and>
       plainMinimax e depth b isMaximizing \<le> INT_MAX"
  "valid_board b \<longrightarrow> INT_MIN \<le> maxEval \<and> maxEval \<le> INT_MAX \<longrightarrow>
       INT_MIN \<le> plainMax e d cs b maxEval \<and> plainMax e d cs b maxEval \<le> INT_MAX"
  "valid_board b \<longrightarrow> INT_MIN \<le> minEval \<and> minEval \<le> INT_MAX \<longrightarrow>
       INT_MIN \<le> plainMin e d cs b minEval \<and> plainMin e d cs b minEval \<le> INT_MAX"
proof (induction e depth b isMaximizing and e d cs b maxEval and e d cs b minEval
        rule: plainMinimax_plainMax_plainMin.induct)
  case (1 e depth b isMaximizing)
  show ?case
  proof
    assume v: "valid_board b"
    show "INT_MIN \<le> plainMinimax e depth b isMaximizing \<and> plainMinimax e depth b isMaximizing \<le> INT_MAX"
      using 1 v evaluateBoard_bounds [OF v, of e]
      by (simp add: plainMinimax_eq INT_MIN_def INT_MAX_def WIN_SCORE_def LOSS_SCORE_def
            split: nat.split)
  qed
next
  case (2 e d b maxEval)
  show ?case by simp
next
  case (3 e d i rest b maxEval)
  then show ?case by (simp add: max_def)
next
  case (4 e d b minEval)
  show ?case by simp
next
  case (5 e d i rest b minEval)
  then show ?case by (simp add: min_def)
qed

lemma minimax_plain:
  assumes "valid_board b"
  shows "fst (minimax e depth b INT_MIN INT_MAX isMaximizing) = plainMinimax e depth b isMaximizing"
proof -
  have "INT_MIN < INT_MAX" by (simp add: INT_MIN_def INT_MAX_def)
  with search_fishburn(1) [of INT_MIN INT_MAX e depth b isMaximizing]
  have "fishburn INT_MIN INT_MAX (plainMinimax e depth b isMaximizing)
          (fst (minimax e depth b INT_MIN INT_MAX isMaximizing))" by simp
  then show ?thesis using plain_range(1) [of b e depth isMaximizing] assms
    by (simp add: fishburn_exact)
qed

lemma bestLoop_plain:
  assumes "valid_board b"
  shows "\<forall>i \<in> set cs. i < length (cells b) \<and> cells b ! i = EMPTY \<Longrightarrow>
         fst (bestLoop e cs b bestScore bestMove) = plainBestLoop e cs b bestScore bestMove"
proof (induction cs arbitrary: bestScore bestMove)
  case Nil
  show ?case by simp
next
  case (Cons i rest)
  obtain s b' where r: "minimax e (maxDepth e) (set_cell b i (aiSymbol e)) INT_MIN INT_MAX False = (s, b')"
    by (cases "minimax e (maxDepth e) (set_cell b i (aiSymbol e)) INT_MIN INT_MAX False")
  from search_restores(1) [of e "maxDepth e" "set_cell b i (aiSymbol e)" INT_MIN INT_MAX False] r
  have b': "b' = set_cell b i (aiSymbol e)" by simp
  from Cons.prems have restored: "set_cell b' i EMPTY = b" unfolding b' by (simp add: set_cell_restore)
  from minimax_plain [of "set_cell b i (aiSymbol e)" e "maxDepth e" False] assms r
  have s: "s = plainMinimax e (maxDepth e) (set_cell b i (aiSymbol e)) False" by simp
  from Cons.prems have rest: "\<forall>j \<in> set rest. j < length (cells b) \<and> cells b ! j = EMPTY" by simp
  show ?case using r restored s Cons.IH [OF rest] by simp
qed

lemma getBestMove_plain:
  "valid_board b \<Longrightarrow> fst (getBestMove e b) = plainBestMove e b"
  by (simp add: getBestMove_def plainBestMove_def bestLoop_plain getEmptyCells_empty)

text \<open>
  Claim C7. On a board of the program, \<open>minimax\<close> with the widest window returns the
  value of the same recursion without the cutoff, for every depth and either side to
  move; so every candidate move of \<open>getBestMove\<close> gets the same score and the same index
  is chosen.
\<close>

theorem pruning_preserves_result:
  assumes "valid_board b"
  shows "fst (minimax e depth b INT_MIN INT_MAX isMaximizing) = plainMinimax e depth b isMaximizing \<and>
         (\<forall>i. candidateScore e b i = plainMinimax e (maxDepth e) (set_cell b i (aiSymbol e)) False) \<and>
         fst (getBestMove e b) = plainBestMove e b"
  using assms by (simp add: minimax_plain candidateScore_def getBestMove_plain)

theorem pruning_preserves_result_witness:
  "valid_board (boardOf 3 ''XO  O    '') \<and>
   fst (minimax engineXO 100 (boardOf 3 ''XO  O    '') INT_MIN INT_MAX True)
     = plainMinimax engineXO 100 (boardOf 3 ''XO  O    '') True \<and>
   fst (getBestMove engineXO (boardOf 3 ''XO  O    '')) = plainBestMove engineXO (boardOf 3 ''XO  O    '') \<and>
   fst (getBestMove engineXO (boardOf 3 ''XO  O    '')) = 7"
proof -
  have v: "valid_board (boardOf 3 ''XO  O    '')" by (simp add: valid_boardOf)
  have g: "fst (getBestMove engineXO (boardOf 3 ''XO  O    '')) = 7" by code_simp
  from pruning_preserves_result [OF v, of engineXO 100 True] v g show ?thesis by simp
qed


section \<open>The move that is chosen\<close>

lemma cells_in_play_set_cell:
  "cells_in_play e b \<Longrightarrow> s \<in> {EMPTY, aiSymbol e, humanSymbol e} \<Longrightarrow> cells_in_play e (set_cell b i s)"
  unfolding cells_in_play_def set_cell_def
  using set_update_subset_insert [of "cells b" i s] by auto

lemma getEmptyCells_Nil: "getEmptyCells b = [] \<longleftrightarrow> isFull b"
  by (auto simp: getEmptyCells_def isFull_def filter_empty_conv in_set_conv_nth)

lemma checkWinner_cases:
  assumes "valid_board b"
  shows "checkWinner b \<in> set (cells b) - {EMPTY} \<or>
         (checkWinner b = (if isFull b then DRAW else NO_WINNER))"
proof (cases "find (won (cells b)) (winLines b)")
  case None
  then show ?thesis by (simp add: checkWinner_def checkLines_find)
next
  case (Some line)
  then have lin: "line \<in> set (winLines b)" and w: "won (cells b) line"
    by (auto simp: find_Some_iff)
  from valid_board_lines [OF assms lin] have "line ! 0 < length (cells b)"
    by (cases line) auto
  then have "cells b ! (line ! 0) \<in> set (cells b)" by simp
  moreover from w have "cells b ! (line ! 0) \<noteq> EMPTY" by (simp add: won_def)
  moreover have "checkWinner b = cells b ! (line ! 0)"
    using Some by (simp add: checkWinner_def checkLines_find)
  ultimately show ?thesis by simp
qed

lemma full_board_terminal:
  assumes "valid_board b" and "cells_in_play e b" and "getEmptyCells b = []"
  shows "checkWinner b = aiSymbol e \<or> checkWinner b = humanSymbol e \<or> checkWinner b = DRAW"
  using checkWinner_cases [OF assms(1)] assms(2,3)
  by (auto simp: cells_in_play_def getEmptyCells_Nil)

lemma plain_above_min:
  "valid_board b \<and> cells_in_play e b \<longrightarrow> INT_MIN < plainMinimax e depth b isMaximizing"
  "valid_board b \<and> cells_in_play e b \<longrightarrow> (cs \<noteq> [] \<or> INT_MIN < maxEval) \<longrightarrow>
     INT_MIN < plainMax e d cs b maxEval"
  "valid_board b \<and> cells_in_play e b \<longrightarrow> INT_MIN < minEval \<longrightarrow>
     INT_MIN < plainMin e d cs b minEval"
proof (induction e depth b isMaximizing and e d cs b maxEval and e d cs b minEval
        rule: plainMinimax_plainMax_plainMin.induct)
  case (1 e depth b isMaximizing)
  show ?case
  proof
    assume v: "valid_board b \<and> cells_in_play e b"
    show "INT_MIN < plainMinimax e depth b isMaximizing"
    proof (cases "checkWinner b = aiSymbol e \<or> checkWinner b = humanSymbol e \<or> checkWinner b = DRAW")
      case True
      then show ?thesis
        by (auto simp: plainMinimax_eq INT_MIN_def WIN_SCORE_def LOSS_SCORE_def)
    next
      case False
      with full_board_terminal [of b e] v have ne: "getEmptyCells b \<noteq> []" by blast
      show ?thesis
      proof (cases depth)
        case 0
        with False evaluateBoard_bounds(1) [of b e] v show ?thesis
          by (simp add: plainMinimax_eq INT_MIN_def)
      next
        case (Suc d)
        show ?thesis
        proof (cases isMaximizing)
          case True
          with "1.IH"(1) [OF refl, of d] False Suc v ne show ?thesis
            by (simp add: plainMinimax_eq)
        next
          case f: False
          with "1.IH"(2) [OF refl, of d] False Suc v show ?thesis
            by (simp add: plainMinimax_eq INT_MIN_def INT_MAX_def)
        qed
      qed
    qed
  qed
next
  case (2 e d b maxEval)
  show ?case by simp
next
  case (3 e d i rest b maxEval)
  show ?case
  proof (intro impI)
    assume v: "valid_board b \<and> cells_in_play e b"
    then have "valid_board (set_cell b i (aiSymbol e)) \<and> cells_in_play e (set_cell b i (aiSymbol e))"
      by (simp add: cells_in_play_set_cell)
    with "3.IH"(1) have "INT_MIN < plainMinimax e d (set_cell b i (aiSymbol e)) False" by simp
    then have "INT_MIN < max maxEval (plainMinimax e d (set_cell b i (aiSymbol e)) False)" by simp
    with "3.IH"(2) v show "INT_MIN < plainMax e d (i # rest) b maxEval" by simp
  qed
next
  case (4 e d b minEval)
  show ?case by simp
next
  case (5 e d i rest b minEval)
  show ?case
  proof (intro impI)
    assume v: "valid_board b \<and> cells_in_play e b" and m: "INT_MIN < minEval"
    from v have "valid_board (set_cell b i (humanSymbol e)) \<and> cells_in_play e (set_cell b i (humanSymbol e))"
      by (simp add: cells_in_play_set_cell)
    with "5.IH"(1) have "INT_MIN < plainMinimax e d (set_cell b i (humanSymbol e)) True" by simp
    with m have "INT_MIN < min minEval (plainMinimax e d (set_cell b i (humanSymbol e)) True)" by simp
    with "5.IH"(2) v show "INT_MIN < plainMin e d (i # rest) b minEval" by simp
  qed
qed

lemma plainBestLoop_keep:
  "\<forall>j \<in> set cs. plainMinimax e (maxDepth e) (set_cell b j (aiSymbol e)) False \<le> s0 \<Longrightarrow>
   plainBestLoop e cs b s0 m0 = m0"
  by (induction cs arbitrary: s0 m0) auto

lemma plainBestLoop_pick:
  "\<exists>j \<in> set cs. s0 < plainMinimax e (maxDepth e) (set_cell b j (aiSymbol e)) False \<Longrightarrow>
   \<exists>k < length cs. plainBestLoop e cs b s0 m0 = int (cs ! k) \<and>
      s0 < plainMinimax e (maxDepth e) (set_cell b (cs ! k) (aiSymbol e)) False \<and>
      (\<forall>j < length cs. plainMinimax e (maxDepth e) (set_cell b (cs ! j) (aiSymbol e)) False
                      \<le> plainMinimax e (maxDepth e) (set_cell b (cs ! k) (aiSymbol e)) False) \<and>
      (\<forall>j < k. plainMinimax e (maxDepth e) (set_cell b (cs ! j) (aiSymbol e)) False
                      < plainMinimax e (maxDepth e) (set_cell b (cs ! k) (aiSymbol e)) False)"
proof (induction cs arbitrary: s0 m0)
  case Nil
  then show ?case by simp
next
  case (Cons i rest)
  let ?sc = "\<lambda>j. plainMinimax e (maxDepth e) (set_cell b j (aiSymbol e)) False"
  show ?case
  proof (cases "s0 < ?sc i")
    case True
    show ?thesis
    proof (cases "\<exists>j \<in> set rest. ?sc i < ?sc j")
      case ex: True
      from Cons.IH [OF ex, of "int i"] obtain k where k: "k < length rest"
        "plainBestLoop e rest b (?sc i) (int i) = int (rest ! k)"
        "?sc i < ?sc (rest ! k)"
        "\<forall>j < length rest. ?sc (rest ! j) \<le> ?sc (rest ! k)"
        "\<forall>j < k. ?sc (rest ! j) < ?sc (rest ! k)" by blast
      have "Suc k < length (i # rest)" using k(1) by simp
      moreover have "plainBestLoop e (i # rest) b s0 m0 = int ((i # rest) ! Suc k)"
        using True k(2) by simp
      moreover have "s0 < ?sc ((i # rest) ! Suc k)" using True k(3) by simp
      moreover have "\<forall>j < length (i # rest). ?sc ((i # rest) ! j) \<le> ?sc ((i # rest) ! Suc k)"
        using k(3,4) by (auto simp: nth_Cons split: nat.split)
      moreover have "\<forall>j < Suc k. ?sc ((i # rest) ! j) < ?sc ((i # rest) ! Suc k)"
        using k(3,5) by (auto simp: nth_Cons split: nat.split)
      ultimately show ?thesis by blast
    next
      case no: False
      then have le: "\<forall>j \<in> set rest. ?sc j \<le> ?sc i" by (auto simp: not_less)
      have "plainBestLoop e (i # rest) b s0 m0 = int ((i # rest) ! 0)"
        using True plainBestLoop_keep [OF le] by simp
      moreover have "\<forall>j < length (i # rest). ?sc ((i # rest) ! j) \<le> ?sc ((i # rest) ! 0)"
        using le by (auto simp: nth_Cons split: nat.split)
      ultimately show ?thesis using True by (intro exI [of _ 0]) simp
    qed
  next
    case False
    with Cons.prems have ex: "\<exists>j \<in> set rest. s0 < ?sc j" by auto
    from Cons.IH [OF ex, of m0] obtain k where k: "k < length rest"
      "plainBestLoop e rest b s0 m0 = int (rest ! k)"
      "s0 < ?sc (rest ! k)"
      "\<forall>j < length rest. ?sc (rest ! j) \<le> ?sc (rest ! k)"
      "\<forall>j < k. ?sc (rest ! j) < ?sc (rest ! k)" by blast
    have "Suc k < length (i # rest)" using k(1) by simp
    moreover have "plainBestLoop e (i # rest) b s0 m0 = int ((i # rest) ! Suc k)"
      using False k(2) by simp
    moreover have "s0 < ?sc ((i # rest) ! Suc k)" using k(3) by simp
    moreover have "\<forall>j < length (i # rest). ?sc ((i # rest) ! j) \<le> ?sc ((i # rest) ! Suc k)"
      using k(3,4) False by (auto simp: nth_Cons split: nat.split)
    moreover have "\<forall>j < Suc k. ?sc ((i # rest) ! j) < ?sc ((i # rest) ! Suc k)"
      using k(3,5) False by (auto simp: nth_Cons split: nat.split)
    ultimately show ?thesis by blast
  qed
qed

lemma getEmptyCells_sorted: "sorted_wrt (<) (getEmptyCells b)"
  by (simp add: getEmptyCells_def sorted_wrt_filter)

lemma candidateScore_plain:
  "valid_board b \<Longrightarrow>
   candidateScore e b i = plainMinimax e (maxDepth e) (set_cell b i (aiSymbol e)) False"
  by (simp add: candidateScore_def minimax_plain)

lemma best_move_choice:
  assumes v: "valid_board b" and p: "cells_in_play e b" and ne: "getEmptyCells b \<noteq> []"
  shows "\<exists>i \<in> set (getEmptyCells b). fst (getBestMove e b) = int i \<and>
           INT_MIN < candidateScore e b i \<and>
           (\<forall>j \<in> set (getEmptyCells b).
              candidateScore e b j \<le> candidateScore e b i \<and>
              (j < i \<longrightarrow> candidateScore e b j < candidateScore e b i))"
proof -
  let ?cs = "getEmptyCells b"
  let ?sc = "\<lambda>j. plainMinimax e (maxDepth e) (set_cell b j (aiSymbol e)) False"
  from ne obtain j0 where j0: "j0 \<in> set ?cs" by (cases ?cs) auto
  have "valid_board (set_cell b j0 (aiSymbol e)) \<and> cells_in_play e (set_cell b j0 (aiSymbol e))"
    using v p by (simp add: cells_in_play_set_cell)
  with plain_above_min(1) [of "set_cell b j0 (aiSymbol e)" e "maxDepth e" False]
  have "INT_MIN < ?sc j0" by simp
  with j0 have "\<exists>j \<in> set ?cs. INT_MIN < ?sc j" by blast
  from plainBestLoop_pick [OF this, of "- 1"] obtain k where k: "k < length ?cs"
    "plainBestLoop e ?cs b INT_MIN (- 1) = int (?cs ! k)"
    "INT_MIN < ?sc (?cs ! k)"
    "\<forall>j < length ?cs. ?sc (?cs ! j) \<le> ?sc (?cs ! k)"
    "\<forall>j < k. ?sc (?cs ! j) < ?sc (?cs ! k)" by blast
  have first: "\<forall>j \<in> set ?cs. j < ?cs ! k \<longrightarrow> ?sc j < ?sc (?cs ! k)"
  proof (intro ballI impI)
    fix j assume "j \<in> set ?cs" and lt: "j < ?cs ! k"
    then obtain n where n: "n < length ?cs" "?cs ! n = j" by (auto simp: in_set_conv_nth)
    have "n < k"
    proof (rule ccontr)
      assume "\<not> n < k"
      then have "k \<le> n" by simp
      then have "?cs ! k \<le> ?cs ! n"
        using getEmptyCells_sorted [of b] n(1) k(1)
        by (cases "k = n") (auto simp: sorted_wrt_iff_nth_less less_imp_le)
      with lt n(2) show False by simp
    qed
    with k(5) n(2) show "?sc j < ?sc (?cs ! k)" by blast
  qed
  have all: "\<forall>j \<in> set ?cs. ?sc j \<le> ?sc (?cs ! k)"
    using k(4) by (auto simp: in_set_conv_nth)
  have "fst (getBestMove e b) = int (?cs ! k)"
    using k(2) getBestMove_plain [OF v, of e] by (simp add: plainBestMove_def)
  moreover have "?cs ! k \<in> set ?cs" using k(1) by simp
  ultimately show ?thesis
    using k(3) first all by (auto simp: candidateScore_plain [OF v])
qed

lemma minimax_above_min:
  assumes "valid_board b" and "cells_in_play e b" and "INT_MIN \<le> alpha" and "alpha < beta"
  shows "INT_MIN < fst (minimax e depth b alpha beta isMaximizing)"
proof -
  from search_fishburn(1) [of alpha beta e depth b isMaximizing] assms(4)
  have f: "fishburn alpha beta (plainMinimax e depth b isMaximizing)
          (fst (minimax e depth b alpha beta isMaximizing))" by simp
  from plain_above_min(1) [of b e depth isMaximizing] assms(1,2)
  have "INT_MIN < plainMinimax e depth b isMaximizing" by simp
  with f assms(3,4) show ?thesis unfolding fishburn_def by linarith
qed

text \<open>
  Claim C4. On a board in play, \<open>getBestMove\<close> returns -1 when no cell is empty;
  otherwise it returns an empty index whose score (the symbol placed, \<open>minimax\<close> for the
  opponent's turn with the full depth budget and the widest window) is the greatest of
  all empty cells, and strictly greater than the score of every lower empty index.
\<close>

theorem getBestMove_choice:
  assumes "valid_board b" and "cells_in_play e b"
  shows "(getEmptyCells b = [] \<longrightarrow> fst (getBestMove e b) = - 1) \<and>
         (getEmptyCells b \<noteq> [] \<longrightarrow>
            (\<exists>i \<in> set (getEmptyCells b). fst (getBestMove e b) = int i \<and>
               (\<forall>j \<in> set (getEmptyCells b).
                  candidateScore e b j \<le> candidateScore e b i \<and>
                  (j < i \<longrightarrow> candidateScore e b j < candidateScore e b i))))"
proof (intro conjI impI)
  assume "getEmptyCells b = []"
  then show "fst (getBestMove e b) = - 1" by (simp add: getBestMove_def)
next
  assume "getEmptyCells b \<noteq> []"
  from best_move_choice [OF assms this]
  show "\<exists>i \<in> set (getEmptyCells b). fst (getBestMove e b) = int i \<and>
               (\<forall>j \<in> set (getEmptyCells b).
                  candidateScore e b j \<le> candidateScore e b i \<and>
                  (j < i \<longrightarrow> candidateScore e b j < candidateScore e b i))"
    by blast
qed

theorem getBestMove_choice_witness:
  "valid_board (boardOf 3 ''XX OO    '') \<and> cells_in_play engineXO (boardOf 3 ''XX OO    '') \<and>
   getEmptyCells (boardOf 3 ''XX OO    '') = [2, 5, 6, 7, 8] \<and>
   (\<exists>i \<in> set (getEmptyCells (boardOf 3 ''XX OO    '')).
      fst (getBestMove engineXO (boardOf 3 ''XX OO    '')) = int i \<and>
      (\<forall>j \<in> set (getEmptyCells (boardOf 3 ''XX OO    '')).
          candidateScore engineXO (boardOf 3 ''XX OO    '') j
            \<le> candidateScore engineXO (boardOf 3 ''XX OO    '') i)) \<and>
   fst (getBestMove engineXO (boardOf 3 ''XX OO    '')) = 2 \<and>
   fst (getBestMove engineXO (boardOf 3 ''XOXXOOOXX'')) = - 1"
proof -
  have v: "valid_board (boardOf 3 ''XX OO    '')" by (simp add: valid_boardOf)
  have p: "cells_in_play engineXO (boardOf 3 ''XX OO    '')" by code_simp
  have c: "getEmptyCells (boardOf 3 ''XX OO    '') = [2, 5, 6, 7, 8]" by code_simp
  have g: "fst (getBestMove engineXO (boardOf 3 ''XX OO    '')) = 2" by code_simp
  have v': "valid_board (boardOf 3 ''XOXXOOOXX'')" by (simp add: valid_boardOf)
  have p': "cells_in_play engineXO (boardOf 3 ''XOXXOOOXX'')" by code_simp
  have c': "getEmptyCells (boardOf 3 ''XOXXOOOXX'') = []" by code_simp
  from getBestMove_choice [OF v p] c
  have "\<exists>i \<in> set (getEmptyCells (boardOf 3 ''XX OO    '')).
      fst (getBestMove engineXO (boardOf 3 ''XX OO    '')) = int i \<and>
      (\<forall>j \<in> set (getEmptyCells (boardOf 3 ''XX OO    '')).
          candidateScore engineXO (boardOf 3 ''XX OO    '') j
            \<le> candidateScore engineXO (boardOf 3 ''XX OO    '') i)"
    by fastforce
  moreover from getBestMove_choice [OF v' p'] c'
  have "fst (getBestMove engineXO (boardOf 3 ''XOXXOOOXX'')) = - 1" by simp
  ultimately show ?thesis using v p c g by blast
qed

text \<open>
  Claim C10. On a board in play with an empty cell, \<open>getBestMove\<close> returns the index of
  an empty cell below \<open>size * size\<close>, never -1, whatever the depth budget: the score of
  every candidate exceeds the minimum integer, as does the result of every \<open>minimax\<close>
  call whose window starts at or above the minimum integer.
\<close>

theorem getBestMove_legal:
  assumes "valid_board b" and "cells_in_play e b" and "\<not> isFull b"
  shows "(\<exists>i. fst (getBestMove e b) = int i \<and> i < boardSize b * boardSize b \<and> get b i = EMPTY) \<and>
         fst (getBestMove e b) \<noteq> - 1 \<and>
         (\<forall>j \<in> set (getEmptyCells b). INT_MIN < candidateScore e b j) \<and>
         (\<forall>depth alpha beta isMaximizing. INT_MIN \<le> alpha \<and> alpha < beta \<longrightarrow>
             INT_MIN < fst (minimax e depth b alpha beta isMaximizing))"
proof -
  from assms(3) have ne: "getEmptyCells b \<noteq> []" by (simp add: getEmptyCells_Nil)
  from best_move_choice [OF assms(1,2) ne] obtain i where i: "i \<in> set (getEmptyCells b)"
    "fst (getBestMove e b) = int i" by blast
  from getEmptyCells_empty [OF i(1)] assms(1)
  have "i < boardSize b * boardSize b" "get b i = EMPTY" by (simp_all add: valid_board_def get_def)
  with i(2) have A: "\<exists>i. fst (getBestMove e b) = int i \<and> i < boardSize b * boardSize b \<and> get b i = EMPTY"
    by blast
  from i(2) have B: "fst (getBestMove e b) \<noteq> - 1" by simp
  have C: "\<forall>j \<in> set (getEmptyCells b). INT_MIN < candidateScore e b j"
  proof
    fix j assume "j \<in> set (getEmptyCells b)"
    have "valid_board (set_cell b j (aiSymbol e))" "cells_in_play e (set_cell b j (aiSymbol e))"
      using assms(1,2) by (simp_all add: cells_in_play_set_cell)
    then show "INT_MIN < candidateScore e b j"
      unfolding candidateScore_def
      by (rule minimax_above_min) (simp_all add: INT_MIN_def INT_MAX_def)
  qed
  have D: "\<forall>depth alpha beta isMaximizing. INT_MIN \<le> alpha \<and> alpha < beta \<longrightarrow>
             INT_MIN < fst (minimax e depth b alpha beta isMaximizing)"
    using minimax_above_min [OF assms(1,2)] by blast
  from A B C D show ?thesis by blast
qed

theorem getBestMove_legal_witness:
  "valid_board (boardOf 3 ''OXOXXO   '') \<and> cells_in_play engineXO (boardOf 3 ''OXOXXO   '') \<and>
   \<not> isFull (boardOf 3 ''OXOXXO   '') \<and>
   (\<exists>i. fst (getBestMove engineXO (boardOf 3 ''OXOXXO   '')) = int i \<and> i < 9 \<and>
        get (boardOf 3 ''OXOXXO   '') i = EMPTY) \<and>
   fst (getBestMove engineXO (boardOf 3 ''OXOXXO   '')) = 7"
proof -
  have v: "valid_board (boardOf 3 ''OXOXXO   '')" by (simp add: valid_boardOf)
  have p: "cells_in_play engineXO (boardOf 3 ''OXOXXO   '')" by code_simp
  have f: "\<not> isFull (boardOf 3 ''OXOXXO   '')" by code_simp
  have g: "fst (getBestMove engineXO (boardOf 3 ''OXOXXO   '')) = 7" by code_simp
  have s: "boardSize (boardOf 3 ''OXOXXO   '') * boardSize (boardOf 3 ''OXOXXO   '') = 9"
    by (simp add: boardOf_def)
  from getBestMove_legal [OF v p f] s
  have "\<exists>i. fst (getBestMove engineXO (boardOf 3 ''OXOXXO   '')) = int i \<and> i < 9 \<and>
        get (boardOf 3 ''OXOXXO   '') i = EMPTY" by simp
  with v p f g show ?thesis by blast
qed

section \<open>The engine does not lose on the 3x3 board\<close>

subsection \<open>A sufficient test for holding a draw\<close>

declare holds.simps [simp del]

lemmas holds_eq = holds.simps [unfolded Let_def]

lemma plainMax_ge_child:
  "j \<in> set cs \<Longrightarrow> plainMinimax e d (set_cell b j (aiSymbol e)) False \<le> plainMax e d cs b m"
proof (induction cs arbitrary: m)
  case Nil
  then show ?case by simp
next
  case (Cons i rest)
  show ?case
  proof (cases "j = i")
    case True
    then show ?thesis by (simp add: plainMax_max)
  next
    case False
    with Cons.prems have "j \<in> set rest" by simp
    from Cons.IH [OF this, of m] show ?thesis by (simp add: plainMax_max)
  qed
qed

lemma plainMin_nonneg:
  "\<forall>j \<in> set cs. 0 \<le> plainMinimax e d (set_cell b j (humanSymbol e)) True \<Longrightarrow> 0 \<le> m \<Longrightarrow>
   0 \<le> plainMin e d cs b m"
  by (induction cs arbitrary: m) simp_all

lemma aiOrder_subset: "set (aiOrder e b) \<subseteq> set (getEmptyCells b)"
  by (auto simp: aiOrder_def getEmptyCells_def)

lemma humanOrder_superset: "set (getEmptyCells b) \<subseteq> set (humanOrder e b)"
  by (simp add: humanOrder_def)

lemma holds_sound:
  "aiSymbol e \<noteq> humanSymbol e \<longrightarrow> holds e depth b isMaximizing \<longrightarrow>
     0 \<le> plainMinimax e depth b isMaximizing"
  "aiSymbol e \<noteq> humanSymbol e \<longrightarrow> holdsSome e d cs b \<longrightarrow>
     (\<exists>j \<in> set cs. 0 \<le> plainMinimax e d (set_cell b j (aiSymbol e)) False)"
  "aiSymbol e \<noteq> humanSymbol e \<longrightarrow> holdsAll e d cs b \<longrightarrow>
     (\<forall>j \<in> set cs. 0 \<le> plainMinimax e d (set_cell b j (humanSymbol e)) True)"
proof (induction e depth b isMaximizing and e d cs b and e d cs b
        rule: holds_holdsSome_holdsAll.induct)
  case (1 e depth b isMaximizing)
  show ?case
  proof (intro impI)
    assume ne: "aiSymbol e \<noteq> humanSymbol e" and h: "holds e depth b isMaximizing"
    show "0 \<le> plainMinimax e depth b isMaximizing"
    proof (cases "checkWinner b = aiSymbol e \<or> checkWinner b = humanSymbol e \<or> checkWinner b = DRAW")
      case True
      with h ne show ?thesis
        by (auto simp: holds_eq plainMinimax_eq WIN_SCORE_def split: if_splits)
    next
      case False
      with h obtain d where d: "depth = Suc d" by (cases depth) (auto simp: holds_eq)
      show ?thesis
      proof (cases isMaximizing)
        case True
        with h False d have "holdsSome e d (aiOrder e b) b" by (simp add: holds_eq)
        with "1.IH"(1) [OF refl, of d] False d True ne
        obtain j where j: "j \<in> set (aiOrder e b)"
          "0 \<le> plainMinimax e d (set_cell b j (aiSymbol e)) False" by auto
        from j(1) aiOrder_subset have "j \<in> set (getEmptyCells b)" by blast
        from plainMax_ge_child [OF this, of e d b INT_MIN] j(2)
        have "0 \<le> plainMax e d (getEmptyCells b) b INT_MIN" by simp
        with False d True show ?thesis by (simp add: plainMinimax_eq)
      next
        case f: False
        with h False d have "holdsAll e d (humanOrder e b) b" by (simp add: holds_eq)
        with "1.IH"(2) [OF refl, of d] False d f ne
        have "\<forall>j \<in> set (humanOrder e b). 0 \<le> plainMinimax e d (set_cell b j (humanSymbol e)) True"
          by auto
        with humanOrder_superset [of b e]
        have "\<forall>j \<in> set (getEmptyCells b). 0 \<le> plainMinimax e d (set_cell b j (humanSymbol e)) True"
          by blast
        from plainMin_nonneg [OF this, of INT_MAX]
        have "0 \<le> plainMin e d (getEmptyCells b) b INT_MAX" by (simp add: INT_MAX_def)
        with False d f show ?thesis by (simp add: plainMinimax_eq)
      qed
    qed
  qed
next
  case (2 e d b)
  show ?case by simp
next
  case (3 e d i rest b)
  show ?case
  proof (intro impI)
    assume ne: "aiSymbol e \<noteq> humanSymbol e" and h: "holdsSome e d (i # rest) b"
    show "\<exists>j \<in> set (i # rest). 0 \<le> plainMinimax e d (set_cell b j (aiSymbol e)) False"
    proof (cases "holds e d (set_cell b i (aiSymbol e)) False")
      case True
      with "3.IH"(1) ne show ?thesis by simp
    next
      case False
      with h have "holdsSome e d rest b" by simp
      with "3.IH"(2) False ne show ?thesis by simp
    qed
  qed
next
  case (4 e d b)
  show ?case by simp
next
  case (5 e d i rest b)
  show ?case
  proof (intro impI)
    assume ne: "aiSymbol e \<noteq> humanSymbol e" and h: "holdsAll e d (i # rest) b"
    from h have c: "holds e d (set_cell b i (humanSymbol e)) True" and r: "holdsAll e d rest b"
      by (simp_all split: if_splits)
    from "5.IH"(1) ne c have "0 \<le> plainMinimax e d (set_cell b i (humanSymbol e)) True" by simp
    with "5.IH"(2) c r ne
    show "\<forall>j \<in> set (i # rest). 0 \<le> plainMinimax e d (set_cell b j (humanSymbol e)) True" by simp
  qed
qed

subsection \<open>The depth budget is never used up\<close>

lemma getEmptyCells_set_cell:
  assumes "i \<in> set (getEmptyCells b)" and "s \<noteq> EMPTY"
  shows "getEmptyCells (set_cell b i s) = filter (\<lambda>j. j \<noteq> i) (getEmptyCells b)"
proof -
  have "filter (\<lambda>j. (cells b)[i := s] ! j = EMPTY) [0..<length (cells b)] =
        filter (\<lambda>j. j \<noteq> i \<and> cells b ! j = EMPTY) [0..<length (cells b)]"
    using assms(2) getEmptyCells_empty [OF assms(1)]
    by (intro filter_cong) (auto simp: nth_list_update)
  then show ?thesis by (simp add: getEmptyCells_def set_cell_def conj_commute)
qed

lemma fewer_empty_cells:
  assumes "i \<in> set (getEmptyCells b)" and "s \<noteq> EMPTY"
  shows "length (getEmptyCells (set_cell b i s)) < length (getEmptyCells b)"
  unfolding getEmptyCells_set_cell [OF assms]
  using assms(1) by (intro length_filter_less [of i]) simp_all

lemma plain_depth:
  "\<forall>d'. engine_ok e \<and> valid_board b \<and> cells_in_play e b \<and>
        length (getEmptyCells b) \<le> depth \<and> length (getEmptyCells b) \<le> d' \<longrightarrow>
        plainMinimax e depth b isMaximizing = plainMinimax e d' b isMaximizing"
  "\<forall>d'. engine_ok e \<and> valid_board b \<and> cells_in_play e b \<and> set cs \<subseteq> set (getEmptyCells b) \<and>
        length (getEmptyCells b) \<le> Suc d \<and> length (getEmptyCells b) \<le> Suc d' \<longrightarrow>
        plainMax e d cs b maxEval = plainMax e d' cs b maxEval"
  "\<forall>d'. engine_ok e \<and> valid_board b \<and> cells_in_play e b \<and> set cs \<subseteq> set (getEmptyCells b) \<and>
        length (getEmptyCells b) \<le> Suc d \<and> length (getEmptyCells b) \<le> Suc d' \<longrightarrow>
        plainMin e d cs b minEval = plainMin e d' cs b minEval"
proof (induction e depth b isMaximizing and e d cs b maxEval and e d cs b minEval
        rule: plainMinimax_plainMax_plainMin.induct)
  case (1 e depth b isMaximizing)
  show ?case
  proof (intro allI impI)
    fix d'
    assume H: "engine_ok e \<and> valid_board b \<and> cells_in_play e b \<and>
        length (getEmptyCells b) \<le> depth \<and> length (getEmptyCells b) \<le> d'"
    show "plainMinimax e depth b isMaximizing = plainMinimax e d' b isMaximizing"
    proof (cases "checkWinner b = aiSymbol e \<or> checkWinner b = humanSymbol e \<or> checkWinner b = DRAW")
      case True
      then show ?thesis by (auto simp: plainMinimax_eq)
    next
      case False
      with full_board_terminal [of b e] H have ne: "getEmptyCells b \<noteq> []" by blast
      with H obtain d where d: "depth = Suc d" by (cases depth) auto
      from ne H obtain d'' where d'': "d' = Suc d''" by (cases d') auto
      show ?thesis
      proof (cases isMaximizing)
        case True
        with "1.IH"(1) [OF refl, of d] False d H d''
        have "plainMax e d (getEmptyCells b) b INT_MIN = plainMax e d'' (getEmptyCells b) b INT_MIN"
          by simp
        with False d d'' True show ?thesis by (simp add: plainMinimax_eq)
      next
        case f: False
        with "1.IH"(2) [OF refl, of d] False d H d''
        have "plainMin e d (getEmptyCells b) b INT_MAX = plainMin e d'' (getEmptyCells b) b INT_MAX"
          by simp
        with False d d'' f show ?thesis by (simp add: plainMinimax_eq)
      qed
    qed
  qed
next
  case (2 e d b maxEval)
  show ?case by simp
next
  case (3 e d i rest b maxEval)
  show ?case
  proof (intro allI impI)
    fix d'
    assume H: "engine_ok e \<and> valid_board b \<and> cells_in_play e b \<and>
        set (i # rest) \<subseteq> set (getEmptyCells b) \<and>
        length (getEmptyCells b) \<le> Suc d \<and> length (getEmptyCells b) \<le> Suc d'"
    let ?c = "set_cell b i (aiSymbol e)"
    from H have "length (getEmptyCells ?c) < length (getEmptyCells b)"
      by (intro fewer_empty_cells) (auto simp: engine_ok_def)
    with H have "length (getEmptyCells ?c) \<le> d" "length (getEmptyCells ?c) \<le> d'" by simp_all
    moreover from H have "valid_board ?c" "cells_in_play e ?c"
      by (simp_all add: cells_in_play_set_cell)
    ultimately have "plainMinimax e d ?c False = plainMinimax e d' ?c False"
      using "3.IH"(1) H by blast
    moreover have "plainMax e d rest b (max maxEval (plainMinimax e d ?c False)) =
                   plainMax e d' rest b (max maxEval (plainMinimax e d ?c False))"
      using "3.IH"(2) H by simp
    ultimately show "plainMax e d (i # rest) b maxEval = plainMax e d' (i # rest) b maxEval"
      by simp
  qed
next
  case (4 e d b minEval)
  show ?case by simp
next
  case (5 e d i rest b minEval)
  show ?case
  proof (intro allI impI)
    fix d'
    assume H: "engine_ok e \<and> valid_board b \<and> cells_in_play e b \<and>
        set (i # rest) \<subseteq> set (getEmptyCells b) \<and>
        length (getEmptyCells b) \<le> Suc d \<and> length (getEmptyCells b) \<le> Suc d'"
    let ?c = "set_cell b i (humanSymbol e)"
    from H have "length (getEmptyCells ?c) < length (getEmptyCells b)"
      by (intro fewer_empty_cells) (auto simp: engine_ok_def)
    with H have "length (getEmptyCells ?c) \<le> d" "length (getEmptyCells ?c) \<le> d'" by simp_all
    moreover from H have "valid_board ?c" "cells_in_play e ?c"
      by (simp_all add: cells_in_play_set_cell)
    ultimately have "plainMinimax e d ?c True = plainMinimax e d' ?c True"
      using "5.IH"(1) H by blast
    moreover have "plainMin e d rest b (min minEval (plainMinimax e d ?c True)) =
                   plainMin e d' rest b (min minEval (plainMinimax e d ?c True))"
      using "5.IH"(2) H by simp
    ultimately show "plainMin e d (i # rest) b minEval = plainMin e d' (i # rest) b minEval"
      by simp
  qed
qed

lemma plainMax_nonneg_child:
  "m < 0 \<Longrightarrow> 0 \<le> plainMax e d cs b m \<Longrightarrow>
   \<exists>j \<in> set cs. 0 \<le> plainMinimax e d (set_cell b j (aiSymbol e)) False"
proof (induction cs)
  case Nil
  then show ?case by simp
next
  case (Cons i rest)
  from Cons.prems(2) have "0 \<le> max (plainMinimax e d (set_cell b i (aiSymbol e)) False)
                                 (plainMax e d rest b m)"
    by (simp add: plainMax_max)
  then consider "0 \<le> plainMinimax e d (set_cell b i (aiSymbol e)) False" | "0 \<le> plainMax e d rest b m"
    by (auto simp: max_def split: if_splits)
  then show ?case
  proof cases
    case 1 then show ?thesis by simp
  next
    case 2 with Cons.IH Cons.prems(1) show ?thesis by simp
  qed
qed

lemma plainMin_all:
  "0 \<le> plainMin e d cs b m \<Longrightarrow> j \<in> set cs \<Longrightarrow>
   0 \<le> plainMinimax e d (set_cell b j (humanSymbol e)) True"
proof (induction cs)
  case Nil
  then show ?case by simp
next
  case (Cons i rest)
  from Cons.prems(1) have m: "0 \<le> min (plainMinimax e d (set_cell b i (humanSymbol e)) True)
                                 (plainMin e d rest b m)"
    by (simp add: plainMin_min)
  show ?case
  proof (cases "j = i")
    case True with m show ?thesis by simp
  next
    case False
    with Cons.prems(2) have "j \<in> set rest" by simp
    moreover from m have "0 \<le> plainMin e d rest b m" by simp
    ultimately show ?thesis using Cons.IH by simp
  qed
qed

subsection \<open>One round of the game loop\<close>

lemma standing_not_terminal:
  assumes "engine_ok e" and "standing e b t"
  shows "\<not> (checkWinner b = aiSymbol e \<or> checkWinner b = humanSymbol e \<or> checkWinner b = DRAW)"
    and "getEmptyCells b \<noteq> []"
proof -
  from assms show nt: "\<not> (checkWinner b = aiSymbol e \<or> checkWinner b = humanSymbol e \<or> checkWinner b = DRAW)"
    by (auto simp: standing_def engine_ok_def DRAW_def NO_WINNER_def)
  with full_board_terminal [of b e] assms(2) show "getEmptyCells b \<noteq> []"
    by (auto simp: standing_def)
qed

lemma not_lost:
  assumes "engine_ok e" and "valid_board b" and "cells_in_play e b"
    and "0 \<le> plainMinimax e d b t" and "checkWinner b \<noteq> NO_WINNER"
  shows "checkWinner b = aiSymbol e \<or> checkWinner b = DRAW"
proof -
  have "checkWinner b \<noteq> humanSymbol e \<or> checkWinner b = aiSymbol e"
  proof (rule ccontr)
    assume "\<not> (checkWinner b \<noteq> humanSymbol e \<or> checkWinner b = aiSymbol e)"
    then have "plainMinimax e d b t = LOSS_SCORE" by (simp add: plainMinimax_eq)
    with assms(4) show False by (simp add: LOSS_SCORE_def)
  qed
  with checkWinner_cases [OF assms(2)] assms(3,5) show ?thesis
    by (auto simp: cells_in_play_def split: if_splits)
qed

lemma ai_step:
  assumes ok: "engine_ok e" and st: "standing e b True"
  shows "\<exists>i \<in> set (getEmptyCells b). getBestMove e b = (int i, b) \<and>
           0 \<le> plainMinimax e (maxDepth e) (set_cell b i (aiSymbol e)) False"
proof -
  from st have v: "valid_board b" and p: "cells_in_play e b" by (simp_all add: standing_def)
  note nt = standing_not_terminal [OF ok st]
  from st nt(2) obtain D where D: "maxDepth e = Suc D" "length (getEmptyCells b) \<le> D"
    by (cases "maxDepth e") (auto simp: standing_def)
  have "plainMinimax e (Suc D) b True = plainMax e D (getEmptyCells b) b INT_MIN"
    using nt(1) by (simp add: plainMinimax_eq)
  with st D have "0 \<le> plainMax e D (getEmptyCells b) b INT_MIN"
    by (simp add: standing_def)
  from plainMax_nonneg_child [OF _ this] obtain j where j: "j \<in> set (getEmptyCells b)"
    "0 \<le> plainMinimax e D (set_cell b j (aiSymbol e)) False" by (auto simp: INT_MIN_def)
  have shrink: "\<And>k. k \<in> set (getEmptyCells b) \<Longrightarrow>
      length (getEmptyCells (set_cell b k (aiSymbol e))) < length (getEmptyCells b)"
    using ok by (intro fewer_empty_cells) (auto simp: engine_ok_def)
  have "plainMinimax e D (set_cell b j (aiSymbol e)) False =
        plainMinimax e (maxDepth e) (set_cell b j (aiSymbol e)) False"
    using plain_depth(1) [of e "set_cell b j (aiSymbol e)" D False] ok v p shrink [OF j(1)] D
    by (simp add: cells_in_play_set_cell)
  with j(2) have cj: "0 \<le> candidateScore e b j" by (simp add: candidateScore_plain [OF v])
  from best_move_choice [OF v p nt(2)] obtain i where i: "i \<in> set (getEmptyCells b)"
    "fst (getBestMove e b) = int i" "\<forall>k \<in> set (getEmptyCells b). candidateScore e b k \<le> candidateScore e b i"
    by blast
  from i(3) j(1) cj have "0 \<le> candidateScore e b i" by force
  then have "0 \<le> plainMinimax e (maxDepth e) (set_cell b i (aiSymbol e)) False"
    by (simp add: candidateScore_plain [OF v])
  moreover have "snd (getBestMove e b) = b"
    by (simp add: getBestMove_def bestLoop_restores getEmptyCells_empty)
  with i(2) have "getBestMove e b = (int i, b)" by (cases "getBestMove e b") simp
  ultimately show ?thesis using i(1) by blast
qed

lemma human_step:
  assumes ok: "engine_ok e" and st: "standing e b False" and i: "i \<in> set (getEmptyCells b)"
  shows "0 \<le> plainMinimax e (maxDepth e) (set_cell b i (humanSymbol e)) True"
proof -
  from st have v: "valid_board b" and p: "cells_in_play e b" by (simp_all add: standing_def)
  note nt = standing_not_terminal [OF ok st]
  from st nt(2) obtain D where D: "maxDepth e = Suc D" "length (getEmptyCells b) \<le> D"
    by (cases "maxDepth e") (auto simp: standing_def)
  have "plainMinimax e (Suc D) b False = plainMin e D (getEmptyCells b) b INT_MAX"
    using nt(1) by (simp add: plainMinimax_eq)
  with st D have "0 \<le> plainMin e D (getEmptyCells b) b INT_MAX"
    by (simp add: standing_def)
  from plainMin_all [OF this i] have c: "0 \<le> plainMinimax e D (set_cell b i (humanSymbol e)) True" .
  have "length (getEmptyCells (set_cell b i (humanSymbol e))) < length (getEmptyCells b)"
    using ok i by (intro fewer_empty_cells) (auto simp: engine_ok_def)
  then have "plainMinimax e D (set_cell b i (humanSymbol e)) True =
        plainMinimax e (maxDepth e) (set_cell b i (humanSymbol e)) True"
    using plain_depth(1) [of e "set_cell b i (humanSymbol e)" D True] ok v p D
    by (simp add: cells_in_play_set_cell)
  with c show ?thesis by simp
qed

lemma humanGetMove_legal:
  "valid_board b \<Longrightarrow> humanGetMove b input = Some (move, rest) \<Longrightarrow> move \<in> set (getEmptyCells b)"
proof (induction input)
  case Nil
  then show ?case by simp
next
  case (Cons m input)
  show ?case
  proof (cases "m < 0 \<or> m > getSize b * getSize b - 1 \<or> \<not> isEmpty b (nat m)")
    case True
    with Cons.prems(2) have "humanGetMove b input = Some (move, rest)"
      by (simp split: if_splits)
    with Cons.IH Cons.prems(1) show ?thesis by simp
  next
    case False
    with Cons.prems(2) have mv: "move = nat m" by simp
    from False Cons.prems(1) have "nat m < length (cells b)"
      by (simp add: getSize_def valid_board_def nat_less_iff flip: of_nat_mult)
    with False mv show ?thesis by (simp add: getEmptyCells_def isEmpty_def)
  qed
qed

lemma step_standing:
  assumes ok: "engine_ok e" and st: "standing e b t" and i: "i \<in> set (getEmptyCells b)"
    and s: "s = (if t then aiSymbol e else humanSymbol e)"
    and nn: "0 \<le> plainMinimax e (maxDepth e) (set_cell b i s) (\<not> t)"
  shows "checkWinner (set_cell b i s) \<noteq> NO_WINNER \<longrightarrow>
           checkWinner (set_cell b i s) = aiSymbol e \<or> checkWinner (set_cell b i s) = DRAW"
    and "checkWinner (set_cell b i s) = NO_WINNER \<longrightarrow> standing e (set_cell b i s) (\<not> t)"
    and "length (getEmptyCells (set_cell b i s)) < length (getEmptyCells b)"
proof -
  from st have v: "valid_board (set_cell b i s)" by (simp add: standing_def)
  from st s have p: "cells_in_play e (set_cell b i s)"
    by (simp add: standing_def cells_in_play_set_cell)
  from ok s have "s \<noteq> EMPTY" by (simp add: engine_ok_def)
  from fewer_empty_cells [OF i this]
  show less: "length (getEmptyCells (set_cell b i s)) < length (getEmptyCells b)" .
  show "checkWinner (set_cell b i s) \<noteq> NO_WINNER \<longrightarrow>
           checkWinner (set_cell b i s) = aiSymbol e \<or> checkWinner (set_cell b i s) = DRAW"
    using not_lost [OF ok v p nn] by blast
  show "checkWinner (set_cell b i s) = NO_WINNER \<longrightarrow> standing e (set_cell b i s) (\<not> t)"
    using v p nn less st by (simp add: standing_def)
qed

lemma play_acceptable:
  assumes ok: "engine_ok e"
  shows "standing e b t \<Longrightarrow> acceptable e fuel b (play e fuel b t input)"
proof (induction fuel arbitrary: b t input)
  case 0
  from standing_not_terminal(2) [OF ok 0] show ?case by (simp add: acceptable_def)
next
  case (Suc fuel)
  note st = Suc.prems
  from standing_not_terminal(2) [OF ok st] have nf: "\<not> isFull b" by (simp add: getEmptyCells_Nil)
  have cont: "\<And>b2 inp t'. standing e b2 t' \<Longrightarrow> length (getEmptyCells b2) < length (getEmptyCells b) \<Longrightarrow>
        acceptable e (Suc fuel) b (play e fuel b2 t' inp)"
  proof -
    fix b2 inp t' assume s2: "standing e b2 t'" and l: "length (getEmptyCells b2) < length (getEmptyCells b)"
    from Suc.IH [OF s2, of inp] l show "acceptable e (Suc fuel) b (play e fuel b2 t' inp)"
      by (cases "play e fuel b2 t' inp") (auto simp: acceptable_def)
  qed
  show ?case
  proof (cases t)
    case True
    from st True have "standing e b True" by simp
    from ai_step [OF ok this] obtain i where i: "i \<in> set (getEmptyCells b)"
      "getBestMove e b = (int i, b)"
      "0 \<le> plainMinimax e (maxDepth e) (set_cell b i (aiSymbol e)) False" by blast
    note ss = step_standing [OF ok st i(1), of "aiSymbol e"]
    show ?thesis
    proof (cases "checkWinner (set_cell b i (aiSymbol e)) = NO_WINNER")
      case nw: True
      with ss(2,3) True i(3) cont [of "set_cell b i (aiSymbol e)" False input]
      show ?thesis using nf True i(2) by simp
    next
      case w: False
      with ss(1) True i(3) show ?thesis using nf True i(2) by (simp add: acceptable_def)
    qed
  next
    case False
    show ?thesis
    proof (cases "humanGetMove b input")
      case None
      with nf False show ?thesis by (simp add: acceptable_def)
    next
      case (Some mr)
      obtain move rest where mr: "mr = (move, rest)" by (cases mr)
      from st have v: "valid_board b" by (simp add: standing_def)
      from humanGetMove_legal [OF v] Some mr have i: "move \<in> set (getEmptyCells b)" by simp
      from st False have "standing e b False" by simp
      from human_step [OF ok this i]
      have nn: "0 \<le> plainMinimax e (maxDepth e) (set_cell b move (humanSymbol e)) True" by simp
      note ss = step_standing [OF ok st i, of "humanSymbol e"]
      show ?thesis
      proof (cases "checkWinner (set_cell b move (humanSymbol e)) = NO_WINNER")
        case nw: True
        with ss(2,3) False nn cont [of "set_cell b move (humanSymbol e)" True rest]
        show ?thesis using nf False Some mr by simp
      next
        case w: False
        with ss(1) False nn show ?thesis using nf False Some mr by (simp add: acceptable_def)
      qed
    qed
  qed
qed

subsection \<open>The game of the program\<close>

lemma engineXO_ok: "engine_ok engineXO"
  by (simp add: engine_ok_def engineXO_def EMPTY_def DRAW_def NO_WINNER_def)

lemma Game_3: "Game 3 = Inr (boardOf 3 ''         '', engineXO)"
  by (simp add: Game_def Board_def AIPlayer_def getMaxDepth_def boardOf_def engineXO_def EMPTY_def
        eval_nat_numeral)

lemma start_holds:
  "holds engineXO 100 (boardOf 3 ''         '') True"
  "holds engineXO 100 (boardOf 3 ''         '') False"
  by code_simp+

lemma start_facts:
  "checkWinner (boardOf 3 ''         '') = NO_WINNER"
  "length (getEmptyCells (boardOf 3 ''         '')) = 9"
  "cells_in_play engineXO (boardOf 3 ''         '')"
  by code_simp+

lemma start_standing: "standing engineXO (boardOf 3 ''         '') aiFirst"
proof -
  have ne: "aiSymbol engineXO \<noteq> humanSymbol engineXO" by (simp add: engineXO_def)
  have "holds engineXO 100 (boardOf 3 ''         '') aiFirst"
    using start_holds by (cases aiFirst) simp_all
  with holds_sound(1) [of engineXO 100 "boardOf 3 ''         ''" aiFirst] ne
  have "0 \<le> plainMinimax engineXO 100 (boardOf 3 ''         '') aiFirst" by simp
  moreover have "maxDepth engineXO = 100" by (simp add: engineXO_def)
  ultimately show ?thesis
    using start_facts by (simp add: standing_def valid_boardOf)
qed

text \<open>
  Claim C1. \<open>Game(3)\<close> starts from the empty 3x3 board with the engine \<open>X\<close> against \<open>O\<close>
  and the depth budget 100. Whoever moves first and whatever the opponent types, the
  engine always has a legal move to play, nine rounds of the loop are enough for any
  game, and a finished game is never won by the opponent: it is won by the engine or
  drawn.
\<close>

theorem engine_never_loses:
  "Game 3 = Inr (boardOf 3 ''         '', engineXO) \<and>
   (\<forall>b. play engineXO fuel (boardOf 3 ''         '') aiFirst input = Over b \<longrightarrow>
        checkWinner b \<noteq> humanSymbol engineXO \<and>
        (checkWinner b = aiSymbol engineXO \<or> checkWinner b = DRAW)) \<and>
   (\<forall>b. play engineXO fuel (boardOf 3 ''         '') aiFirst input \<noteq> NoMove b) \<and>
   (9 \<le> fuel \<longrightarrow> (\<forall>b. play engineXO fuel (boardOf 3 ''         '') aiFirst input \<noteq> OutOfFuel b))"
proof -
  let ?r = "play engineXO fuel (boardOf 3 ''         '') aiFirst input"
  have a: "acceptable engineXO fuel (boardOf 3 ''         '') ?r"
    by (rule play_acceptable [OF engineXO_ok start_standing])
  have d: "humanSymbol engineXO \<noteq> aiSymbol engineXO" "humanSymbol engineXO \<noteq> DRAW"
    by (simp_all add: engineXO_def DRAW_def)
  have "\<forall>b. ?r = Over b \<longrightarrow> checkWinner b \<noteq> humanSymbol engineXO \<and>
        (checkWinner b = aiSymbol engineXO \<or> checkWinner b = DRAW)"
    using a d by (auto simp: acceptable_def)
  moreover have "\<forall>b. ?r \<noteq> NoMove b" using a by (auto simp: acceptable_def)
  moreover have "9 \<le> fuel \<longrightarrow> (\<forall>b. ?r \<noteq> OutOfFuel b)"
    using a start_facts(2) by (auto simp: acceptable_def)
  ultimately show ?thesis using Game_3 by blast
qed

theorem engine_never_loses_witness:
  "play engineXO 9 (boardOf 3 ''         '') False [0, 1, 3] = Over (boardOf 3 ''OOXOX X  '') \<and>
   checkWinner (boardOf 3 ''OOXOX X  '') \<noteq> humanSymbol engineXO \<and>
   checkWinner (boardOf 3 ''OOXOX X  '') = CHR ''X'' \<and>
   (9::nat) \<le> 9 \<and>
   (\<forall>b. play engineXO 9 (boardOf 3 ''         '') False [0, 1, 3] \<noteq> OutOfFuel b)"
proof -
  have g: "play engineXO 9 (boardOf 3 ''         '') False [0, 1, 3] = Over (boardOf 3 ''OOXOX X  '')"
    by code_simp
  have w: "checkWinner (boardOf 3 ''OOXOX X  '') = CHR ''X''" by code_simp
  from engine_never_loses [of 9 False "[0, 1, 3]"] g
  have "checkWinner (boardOf 3 ''OOXOX X  '') \<noteq> humanSymbol engineXO"
    and "\<forall>b. play engineXO 9 (boardOf 3 ''         '') False [0, 1, 3] \<noteq> OutOfFuel b"
    by simp_all
  with g w show ?thesis by simp
qed


end
